theory Spec2Isabelle
  imports Main "HOL-Library.Word"
begin

section \<open>Round-robin ACL scheduler: data model\<close>

text \<open>
  The scheduler of \<^verbatim>\<open>hci/round_robin_scheduler.h\<close> and its member functions.
  The 16-bit counters are \<^typ>\<open>16 word\<close>, so \<open>+\<close> and \<open>-\<close> wrap as \<^verbatim>\<open>uint16_t\<close> does.
  Member names are the source's without the trailing underscore.
\<close>

datatype ConnectionType = CLASSIC | LE

datatype PacketBoundaryFlag = FIRST_AUTOMATICALLY_FLUSHABLE | CONTINUING_FRAGMENT

datatype BroadcastFlag = POINT_TO_POINT

type_synonym octets = "8 word list"

record acl_queue_handler =
  connection_type :: ConnectionType
  queue_down_end :: nat
  dequeue_is_registered :: bool
  number_of_sent_packets :: "16 word"
  is_disconnected :: bool

text \<open>What \<^verbatim>\<open>AclPacketBuilder::Create(handle, pb_flag, bc_flag, payload)\<close> is given.\<close>

record AclPacketBuilder =
  acl_handle :: "16 word"
  packet_boundary_flag :: PacketBoundaryFlag
  broadcast_flag :: BroadcastFlag
  acl_payload :: octets

text \<open>
  An iterator of \<^verbatim>\<open>std::map<uint16_t, acl_queue_handler>\<close>: default-constructed
  (singular), past-the-end, or at the node of a key.
\<close>

datatype map_iterator = Singular | End | At "16 word"

type_synonym handler_map = "(16 word \<times> acl_queue_handler) list"

text \<open>
  The map is its in-order traversal: an association list in ascending key order.
  \<open>posted_start_round_robin\<close> counts the \<^verbatim>\<open>StartRoundRobin\<close> tasks that
  \<^verbatim>\<open>handler_->Post\<close> has queued and that have not run yet.
\<close>

record RoundRobinScheduler =
  acl_queue_handlers :: handler_map
  fragments_to_send :: "(ConnectionType \<times> AclPacketBuilder) list"
  max_acl_packet_credits :: "16 word"
  acl_packet_credits :: "16 word"
  le_max_acl_packet_credits :: "16 word"
  le_acl_packet_credits :: "16 word"
  hci_mtu :: nat
  le_hci_mtu :: nat
  enqueue_registered :: bool
  starting_point :: map_iterator
  posted_start_round_robin :: nat

text \<open>
  \<^verbatim>\<open>ASSERT\<close> aborts the process with a diagnostic; dereferencing or incrementing
  \<^verbatim>\<open>end()\<close> or a singular iterator, and \<^verbatim>\<open>front()\<close> of an empty queue, are undefined.
\<close>

datatype error = AssertionFailure | UndefinedBehaviour

subsection \<open>The operations of std::map that the scheduler uses\<close>

fun std_map_insert :: "16 word \<Rightarrow> acl_queue_handler \<Rightarrow> handler_map \<Rightarrow> handler_map" where
  "std_map_insert k v [] = [(k, v)]"
| "std_map_insert k v ((k', v') # m) =
     (if k < k' then (k, v) # (k', v') # m
      else if k = k' then (k', v') # m
      else (k', v') # std_map_insert k v m)"

definition std_map_erase :: "16 word \<Rightarrow> handler_map \<Rightarrow> handler_map" where
  "std_map_erase k m = filter (\<lambda>kv. fst kv \<noteq> k) m"

definition std_map_begin :: "handler_map \<Rightarrow> map_iterator" where
  "std_map_begin m = (case m of [] \<Rightarrow> End | kv # _ \<Rightarrow> At (fst kv))"

text \<open>Assignment through an iterator: \<^verbatim>\<open>it->second = f(it->second)\<close>.\<close>

definition std_map_modify ::
  "16 word \<Rightarrow> (acl_queue_handler \<Rightarrow> acl_queue_handler) \<Rightarrow> handler_map \<Rightarrow> handler_map" where
  "std_map_modify k f m = map (\<lambda>kv. if fst kv = k then (fst kv, f (snd kv)) else kv) m"

text \<open>\<^verbatim>\<open>std::next(it)\<close>: the node after the node of \<open>it\<close> in key order.\<close>

definition std_next :: "handler_map \<Rightarrow> map_iterator \<Rightarrow> error + map_iterator" where
  "std_next m it =
     (case it of
        At k \<Rightarrow>
          (case dropWhile (\<lambda>kv. fst kv \<noteq> k) m of
             [] \<Rightarrow> Inl UndefinedBehaviour
           | _ # [] \<Rightarrow> Inr End
           | _ # kv # _ \<Rightarrow> Inr (At (fst kv)))
      | _ \<Rightarrow> Inl UndefinedBehaviour)"

subsection \<open>Constructor\<close>

text \<open>
  The four arguments are what the controller reports: number of classic ACL buffers,
  classic ACL packet length, total number of LE packets, LE data packet length.
\<close>

definition RoundRobinScheduler_new ::
  "16 word \<Rightarrow> nat \<Rightarrow> 16 word \<Rightarrow> nat \<Rightarrow> RoundRobinScheduler" where
  "RoundRobinScheduler_new num_acl_packet_buffers acl_packet_length total_num_le_packets
       le_data_packet_length =
     \<lparr> acl_queue_handlers = [],
       fragments_to_send = [],
       max_acl_packet_credits = num_acl_packet_buffers,
       acl_packet_credits = num_acl_packet_buffers,
       le_max_acl_packet_credits = total_num_le_packets,
       le_acl_packet_credits = total_num_le_packets,
       hci_mtu = acl_packet_length,
       le_hci_mtu = le_data_packet_length,
       enqueue_registered = False,
       starting_point = Singular,
       posted_start_round_robin = 0 \<rparr>"

subsection \<open>SendNextFragment, UnregisterAllConnections, StartRoundRobin\<close>

definition SendNextFragment :: "RoundRobinScheduler \<Rightarrow> RoundRobinScheduler" where
  "SendNextFragment s = s\<lparr>enqueue_registered := True\<rparr>"

definition UnregisterAllConnections :: "handler_map \<Rightarrow> handler_map" where
  "UnregisterAllConnections m =
     map (\<lambda>kv. if dequeue_is_registered (snd kv)
               then (fst kv, (snd kv)\<lparr>dequeue_is_registered := False\<rparr>) else kv) m"

text \<open>
  The \<^verbatim>\<open>for\<close> loop of \<^verbatim>\<open>StartRoundRobin\<close>: \<open>count\<close> iterations from the iterator
  \<open>it\<close>, wrapping from \<^verbatim>\<open>end()\<close> to \<^verbatim>\<open>begin()\<close>.
\<close>

fun round_robin_loop :: "nat \<Rightarrow> map_iterator \<Rightarrow> handler_map \<Rightarrow> error + handler_map" where
  "round_robin_loop 0 it m = Inr m"
| "round_robin_loop (Suc count) it m =
     (case it of
        At k \<Rightarrow>
          (case map_of m k of
             None \<Rightarrow> Inl UndefinedBehaviour
           | Some r \<Rightarrow>
               (let m' = (if \<not> dequeue_is_registered r
                          then std_map_modify k (\<lambda>r. r\<lparr>dequeue_is_registered := True\<rparr>) m
                          else m)
                in case std_next m' (At k) of
                     Inl e \<Rightarrow> Inl e
                   | Inr it' \<Rightarrow>
                       round_robin_loop count (if it' = End then std_map_begin m' else it') m'))
      | _ \<Rightarrow> Inl UndefinedBehaviour)"

definition StartRoundRobin :: "RoundRobinScheduler \<Rightarrow> error + RoundRobinScheduler" where
  "StartRoundRobin s =
     (if acl_packet_credits s = 0 \<and> le_acl_packet_credits s = 0 then Inr s
      else if fragments_to_send s \<noteq> [] then Inr (SendNextFragment s)
      else if length (acl_queue_handlers s) \<noteq> 1 \<and> starting_point s = Singular
        then Inl UndefinedBehaviour
      else
        (let m = acl_queue_handlers s;
             sp = (if length m = 1 \<or> starting_point s = End
                   then std_map_begin m else starting_point s)
         in case round_robin_loop (length m) sp m of
              Inl e \<Rightarrow> Inl e
            | Inr m' \<Rightarrow>
                (case std_next m' sp of
                   Inl e \<Rightarrow> Inl e
                 | Inr sp' \<Rightarrow> Inr (s\<lparr>acl_queue_handlers := m', starting_point := sp'\<rparr>))))"

subsection \<open>Register, Unregister, SetDisconnect\<close>

definition Register ::
  "ConnectionType \<Rightarrow> 16 word \<Rightarrow> nat \<Rightarrow> RoundRobinScheduler \<Rightarrow> error + RoundRobinScheduler" where
  "Register ct h q s =
     (let acl_queue_handler =
            \<lparr> connection_type = ct, queue_down_end = q,
              dequeue_is_registered = False, number_of_sent_packets = 0,
              is_disconnected = False \<rparr>;
          s1 = s\<lparr>acl_queue_handlers := std_map_insert h acl_queue_handler (acl_queue_handlers s)\<rparr>
      in if length (fragments_to_send s1) = 0 then StartRoundRobin s1 else Inr s1)"

text \<open>
  \<^verbatim>\<open>Unregister\<close> clears the dequeue flag on a copy of the record and erases the node.
\<close>

definition Unregister :: "16 word \<Rightarrow> RoundRobinScheduler \<Rightarrow> error + RoundRobinScheduler" where
  "Unregister h s =
     (case map_of (acl_queue_handlers s) h of
        None \<Rightarrow> Inl AssertionFailure
      | Some r \<Rightarrow>
          (let m' = std_map_erase h (acl_queue_handlers s)
           in Inr (s\<lparr>acl_queue_handlers := m', starting_point := std_map_begin m'\<rparr>)))"

text \<open>
  \<^verbatim>\<open>auto acl_queue_handler = acl_queue_handlers_.find(handle)->second;\<close> copies the
  record: the writes to \<^verbatim>\<open>is_disconnected_\<close> and \<^verbatim>\<open>number_of_sent_packets_\<close> go to
  the local copy \<open>local\<close>, which is dropped on return, and the map keeps the old record.
  There is no check that \<^verbatim>\<open>find\<close> found the handle.
\<close>

definition SetDisconnect :: "16 word \<Rightarrow> RoundRobinScheduler \<Rightarrow> error + RoundRobinScheduler" where
  "SetDisconnect h s =
     (case map_of (acl_queue_handlers s) h of
        None \<Rightarrow> Inl UndefinedBehaviour
      | Some r \<Rightarrow>
          (let local = r\<lparr>is_disconnected := True\<rparr>;
               s1 = (if connection_type local = CLASSIC
                     then s\<lparr>acl_packet_credits :=
                              acl_packet_credits s + number_of_sent_packets local\<rparr>
                     else s\<lparr>le_acl_packet_credits :=
                              le_acl_packet_credits s + number_of_sent_packets local\<rparr>);
               local' = local\<lparr>number_of_sent_packets := 0\<rparr>
           in Inr s1))"

subsection \<open>BufferPacket\<close>

text \<open>
  Modelled from the spec: \<^verbatim>\<open>AclFragmenter(mtu, packet).GetFragments()\<close>, whose source
  (\<^verbatim>\<open>hci/acl_fragmenter\<close>) is not part of the files at hand. The spec: ``split into
  MTU-sized pieces'', a payload of 60 bytes with MTU 27 giving pieces of 27, 27 and 6 bytes.
  The spec says nothing about an MTU of 0; no piece is produced then.
\<close>

fun GetFragments :: "nat \<Rightarrow> octets \<Rightarrow> octets list" where
  "GetFragments mtu packet =
     (if mtu = 0 \<or> packet = [] then []
      else take mtu packet # GetFragments mtu (drop mtu packet))"

declare GetFragments.simps [simp del]

definition Create ::
  "16 word \<Rightarrow> PacketBoundaryFlag \<Rightarrow> BroadcastFlag \<Rightarrow> octets \<Rightarrow> AclPacketBuilder" where
  "Create h pb bc p =
     \<lparr> acl_handle = h, packet_boundary_flag = pb, broadcast_flag = bc, acl_payload = p \<rparr>"

text \<open>
  The loop over \<^verbatim>\<open>fragments\<close>: each piece is pushed with the current boundary flag,
  which is \<^verbatim>\<open>CONTINUING_FRAGMENT\<close> after the first push.
\<close>

fun push_fragments ::
  "ConnectionType \<Rightarrow> 16 word \<Rightarrow> BroadcastFlag \<Rightarrow> PacketBoundaryFlag \<Rightarrow> octets list \<Rightarrow>
   (ConnectionType \<times> AclPacketBuilder) list" where
  "push_fragments ct h bc pb [] = []"
| "push_fragments ct h bc pb (f # fs) =
     (ct, Create h pb bc f) # push_fragments ct h bc CONTINUING_FRAGMENT fs"

text \<open>
  \<^verbatim>\<open>BufferPacket\<close> runs with the iterator of the connection whose queue has a packet;
  \<open>packet\<close> is what \<^verbatim>\<open>TryDequeue\<close> returns. The count added to
  \<^verbatim>\<open>number_of_sent_packets_\<close> is the size of the whole FIFO, truncated to 16 bits.
\<close>

definition BufferPacket ::
  "16 word \<Rightarrow> octets option \<Rightarrow> RoundRobinScheduler \<Rightarrow> error + RoundRobinScheduler" where
  "BufferPacket h packet s =
     (case map_of (acl_queue_handlers s) h of
        None \<Rightarrow> Inl UndefinedBehaviour
      | Some r \<Rightarrow>
          (case packet of
             None \<Rightarrow> Inl AssertionFailure
           | Some p \<Rightarrow>
               (let broadcast_flag = POINT_TO_POINT;
                    ct = connection_type r;
                    mtu = (if ct = CLASSIC then hci_mtu s else le_hci_mtu s);
                    fifo = fragments_to_send s @
                      (if length p \<le> mtu
                       then [(ct, Create h FIRST_AUTOMATICALLY_FLUSHABLE broadcast_flag p)]
                       else push_fragments ct h broadcast_flag FIRST_AUTOMATICALLY_FLUSHABLE
                              (GetFragments mtu p))
                in if \<not> length fifo > 0 then Inl AssertionFailure
                   else Inr (SendNextFragment
                     (s\<lparr>fragments_to_send := fifo,
                        acl_queue_handlers :=
                          std_map_modify h
                            (\<lambda>r. r\<lparr>number_of_sent_packets :=
                                      number_of_sent_packets r + of_nat (length fifo)\<rparr>)
                            (UnregisterAllConnections (acl_queue_handlers s))\<rparr>)))))"

subsection \<open>HandleEnqueueNextFragment\<close>

text \<open>Returns the fragment handed to the HCI egress queue and the new state.\<close>

definition HandleEnqueueNextFragment ::
  "RoundRobinScheduler \<Rightarrow> error + (AclPacketBuilder \<times> RoundRobinScheduler)" where
  "HandleEnqueueNextFragment s =
     (case fragments_to_send s of
        [] \<Rightarrow> Inl UndefinedBehaviour
      | front # rest \<Rightarrow>
          (if fst front = CLASSIC \<and> \<not> acl_packet_credits s > 0 then Inl AssertionFailure
           else if fst front \<noteq> CLASSIC \<and> \<not> le_acl_packet_credits s > 0 then Inl AssertionFailure
           else
             (let s1 = (if fst front = CLASSIC
                        then s\<lparr>acl_packet_credits := acl_packet_credits s - 1\<rparr>
                        else s\<lparr>le_acl_packet_credits := le_acl_packet_credits s - 1\<rparr>);
                  s2 = s1\<lparr>fragments_to_send := rest\<rparr>
              in case rest of
                   [] \<Rightarrow>
                     Inr (snd front,
                          s2\<lparr>enqueue_registered := False,
                             posted_start_round_robin := posted_start_round_robin s2 + 1\<rparr>)
                 | nxt # _ \<Rightarrow>
                     (let classic_buffer_full =
                            (fst nxt = CLASSIC \<and> acl_packet_credits s2 = 0);
                          le_buffer_full = (fst nxt = LE \<and> le_acl_packet_credits s2 = 0)
                      in Inr (snd front,
                              if classic_buffer_full \<or> le_buffer_full
                              then s2\<lparr>enqueue_registered := False\<rparr> else s2)))))"

subsection \<open>IncomingAclCredits\<close>

definition IncomingAclCredits ::
  "16 word \<Rightarrow> 16 word \<Rightarrow> RoundRobinScheduler \<Rightarrow> error + RoundRobinScheduler" where
  "IncomingAclCredits h credits s =
     (case map_of (acl_queue_handlers s) h of
        None \<Rightarrow> Inr s
      | Some r \<Rightarrow>
          (if is_disconnected r then Inr s
           else
             (let s1 = s\<lparr>acl_queue_handlers :=
                          std_map_modify h
                            (\<lambda>r. r\<lparr>number_of_sent_packets := number_of_sent_packets r - credits\<rparr>)
                            (acl_queue_handlers s)\<rparr>;
                  s2 = (if connection_type r = CLASSIC
                        then s1\<lparr>acl_packet_credits := acl_packet_credits s1 + credits\<rparr>
                        else s1\<lparr>le_acl_packet_credits := le_acl_packet_credits s1 + credits\<rparr>)
              in if \<not> acl_packet_credits s2 \<le> max_acl_packet_credits s2 then Inl AssertionFailure
                 else if \<not> le_acl_packet_credits s2 \<le> le_max_acl_packet_credits s2
                   then Inl AssertionFailure
                 else if acl_packet_credits s2 = credits \<or> le_acl_packet_credits s2 = credits
                   then StartRoundRobin s2
                 else Inr s2)))"

subsection \<open>Runs of the scheduler\<close>

text \<open>
  What can happen to a scheduler: the three public calls, the dequeue callback of a
  connection delivering a payload, the enqueue callback of the HCI egress queue, a
  completed-packets report of the controller, and a posted \<^verbatim>\<open>StartRoundRobin\<close> task.
\<close>

datatype event =
    DoRegister ConnectionType "16 word" nat
  | DoUnregister "16 word"
  | DoSetDisconnect "16 word"
  | DoBufferPacket "16 word" octets
  | DoHandleEnqueueNextFragment
  | DoIncomingAclCredits "16 word" "16 word"
  | DoStartRoundRobin

text \<open>
  A dequeue callback runs only for a connection whose dequeue is registered, the enqueue
  callback only while the enqueue is registered, a posted task only once it was posted.
\<close>

fun enabled :: "event \<Rightarrow> RoundRobinScheduler \<Rightarrow> bool" where
  "enabled (DoBufferPacket h p) s =
     (case map_of (acl_queue_handlers s) h of
        None \<Rightarrow> False | Some r \<Rightarrow> dequeue_is_registered r)"
| "enabled DoHandleEnqueueNextFragment s = enqueue_registered s"
| "enabled DoStartRoundRobin s = (posted_start_round_robin s > 0)"
| "enabled _ s = True"

fun fire :: "event \<Rightarrow> RoundRobinScheduler \<Rightarrow> error + RoundRobinScheduler" where
  "fire (DoRegister ct h q) s = Register ct h q s"
| "fire (DoUnregister h) s = Unregister h s"
| "fire (DoSetDisconnect h) s = SetDisconnect h s"
| "fire (DoBufferPacket h p) s = BufferPacket h (Some p) s"
| "fire DoHandleEnqueueNextFragment s =
     (case HandleEnqueueNextFragment s of Inl e \<Rightarrow> Inl e | Inr ps \<Rightarrow> Inr (snd ps))"
| "fire (DoIncomingAclCredits h n) s = IncomingAclCredits h n s"
| "fire DoStartRoundRobin s =
     StartRoundRobin (s\<lparr>posted_start_round_robin := posted_start_round_robin s - 1\<rparr>)"

text \<open>
  A run is a list of events, each enabled when it happens; \<open>run\<close> is \<open>None\<close> for a list
  that is not a run, and otherwise the state reached or the failure that ended it.
\<close>

fun run :: "event list \<Rightarrow> RoundRobinScheduler \<Rightarrow> (error + RoundRobinScheduler) option" where
  "run [] s = Some (Inr s)"
| "run (e # es) s =
     (if \<not> enabled e s then None
      else case fire e s of Inl x \<Rightarrow> Some (Inl x) | Inr s' \<Rightarrow> run es s')"

section \<open>Module registry\<close>

text \<open>
  \<^verbatim>\<open>ModuleRegistry\<close> of \<^verbatim>\<open>module.cc\<close>. A \<^verbatim>\<open>const ModuleFactory*\<close> identifies a module;
  what a module lists in \<^verbatim>\<open>ListDependencies\<close> is code of the module, so it is a
  parameter \<open>deps\<close> of the registry's functions. The registry only calls the start and
  stop steps of an instance; \<open>calls\<close> records these calls in the order they are made.
\<close>

type_synonym ModuleFactory = nat

type_synonym Thread = nat

record Module =
  handler :: Thread
  dependencies :: "ModuleFactory list"

datatype module_call = CallStart ModuleFactory | CallStop ModuleFactory

record ModuleRegistry =
  started_modules :: "(ModuleFactory \<times> Module) list"
  start_order :: "ModuleFactory list"
  calls :: "module_call list"

definition new_registry :: ModuleRegistry where
  "new_registry = \<lparr> started_modules = [], start_order = [], calls = [] \<rparr>"

text \<open>\<^verbatim>\<open>started_modules_[module] = instance\<close> and \<^verbatim>\<open>started_modules_.erase\<close>.\<close>

definition assign_module ::
  "ModuleFactory \<Rightarrow> Module \<Rightarrow> (ModuleFactory \<times> Module) list \<Rightarrow> (ModuleFactory \<times> Module) list" where
  "assign_module k v m = (k, v) # filter (\<lambda>kv. fst kv \<noteq> k) m"

definition erase_module ::
  "ModuleFactory \<Rightarrow> (ModuleFactory \<times> Module) list \<Rightarrow> (ModuleFactory \<times> Module) list" where
  "erase_module k m = filter (\<lambda>kv. fst kv \<noteq> k) m"

text \<open>
  The end of \<^verbatim>\<open>Start(const ModuleFactory*, Thread*)\<close>: the start step of the new instance
  is called and the module is entered in the start order and in the map.
\<close>

definition enter_module ::
  "(ModuleFactory \<Rightarrow> ModuleFactory list) \<Rightarrow> Thread \<Rightarrow> ModuleFactory \<Rightarrow> ModuleRegistry \<Rightarrow>
   ModuleRegistry" where
  "enter_module deps thread module reg =
     reg\<lparr>calls := calls reg @ [CallStart module],
         start_order := start_order reg @ [module],
         started_modules :=
           assign_module module \<lparr> handler = thread, dependencies = deps module \<rparr>
             (started_modules reg)\<rparr>"

text \<open>The loop of \<^verbatim>\<open>Start(ModuleList*, Thread*)\<close>, over a function that starts one module.\<close>

fun start_all ::
  "(ModuleFactory \<Rightarrow> ModuleRegistry \<Rightarrow> ModuleRegistry option) \<Rightarrow> ModuleFactory list \<Rightarrow>
   ModuleRegistry \<Rightarrow> ModuleRegistry option" where
  "start_all start_one [] reg = Some reg"
| "start_all start_one (module # modules) reg =
     (case start_one module reg of
        None \<Rightarrow> None
      | Some reg' \<Rightarrow> start_all start_one modules reg')"

text \<open>
  \<^verbatim>\<open>Start(const ModuleFactory*, Thread*)\<close> recurses into the dependencies before the module
  is entered in \<^verbatim>\<open>started_modules_\<close>, so it need not return (a module that depends
  on itself). The first argument bounds the depth of the recursion; \<open>None\<close> means that
  the bound was reached.
\<close>

primrec Start ::
  "nat \<Rightarrow> (ModuleFactory \<Rightarrow> ModuleFactory list) \<Rightarrow> Thread \<Rightarrow> ModuleFactory \<Rightarrow>
   ModuleRegistry \<Rightarrow> ModuleRegistry option" where
  "Start 0 deps thread module reg =
     (case map_of (started_modules reg) module of
        Some started_instance \<Rightarrow> Some reg
      | None \<Rightarrow> None)"
| "Start (Suc depth) deps thread module reg =
     (case map_of (started_modules reg) module of
        Some started_instance \<Rightarrow> Some reg
      | None \<Rightarrow>
          (case start_all (Start depth deps thread) (deps module) reg of
             None \<Rightarrow> None
           | Some reg' \<Rightarrow> Some (enter_module deps thread module reg')))"

definition Start_modules ::
  "nat \<Rightarrow> (ModuleFactory \<Rightarrow> ModuleFactory list) \<Rightarrow> Thread \<Rightarrow> ModuleFactory list \<Rightarrow>
   ModuleRegistry \<Rightarrow> ModuleRegistry option" where
  "Start_modules depth deps thread modules reg = start_all (Start depth deps thread) modules reg"

text \<open>The loop of \<^verbatim>\<open>StopAll\<close> over the reversed start order.\<close>

fun stop_loop :: "ModuleFactory list \<Rightarrow> ModuleRegistry \<Rightarrow> error + ModuleRegistry" where
  "stop_loop [] reg = Inr reg"
| "stop_loop (module # modules) reg =
     (case map_of (started_modules reg) module of
        None \<Rightarrow> Inl AssertionFailure
      | Some instance \<Rightarrow>
          stop_loop modules
            (reg\<lparr>calls := calls reg @ [CallStop module],
                 started_modules := erase_module module (started_modules reg)\<rparr>))"

definition StopAll :: "ModuleRegistry \<Rightarrow> error + ModuleRegistry" where
  "StopAll reg =
     (case stop_loop (rev (start_order reg)) reg of
        Inl e \<Rightarrow> Inl e
      | Inr reg' \<Rightarrow>
          if started_modules reg' \<noteq> [] then Inl AssertionFailure
          else Inr (reg'\<lparr>start_order := []\<rparr>))"

text \<open>
  A sequence of calls of \<^verbatim>\<open>Start(ModuleList*, Thread*)\<close>, each with its thread and its
  list of modules, on a registry.
\<close>

fun start_calls ::
  "nat \<Rightarrow> (ModuleFactory \<Rightarrow> ModuleFactory list) \<Rightarrow> (Thread \<times> ModuleFactory list) list \<Rightarrow>
   ModuleRegistry \<Rightarrow> ModuleRegistry option" where
  "start_calls depth deps [] reg = Some reg"
| "start_calls depth deps (c # cs) reg =
     (case Start_modules depth deps (fst c) (snd c) reg of
        None \<Rightarrow> None
      | Some reg' \<Rightarrow> start_calls depth deps cs reg')"

text \<open>The modules whose start step, respectively stop step, was called, in call order.\<close>

fun started_in :: "module_call list \<Rightarrow> ModuleFactory list" where
  "started_in [] = []"
| "started_in (CallStart m # cs) = m # started_in cs"
| "started_in (CallStop m # cs) = started_in cs"

fun stopped_in :: "module_call list \<Rightarrow> ModuleFactory list" where
  "stopped_in [] = []"
| "stopped_in (CallStart m # cs) = stopped_in cs"
| "stopped_in (CallStop m # cs) = m # stopped_in cs"

definition is_started :: "ModuleRegistry \<Rightarrow> ModuleFactory \<Rightarrow> bool" where
  "is_started reg m = (m \<in> set (map fst (started_modules reg)))"

text \<open>The dependencies of every started module are started.\<close>

definition deps_started :: "(ModuleFactory \<Rightarrow> ModuleFactory list) \<Rightarrow> ModuleRegistry \<Rightarrow> bool" where
  "deps_started deps reg =
     (\<forall>m. is_started reg m \<longrightarrow> (\<forall>d \<in> set (deps m). is_started reg d))"

text \<open>What every sequence of starts keeps true of the registry.\<close>

definition registry_inv :: "(ModuleFactory \<Rightarrow> ModuleFactory list) \<Rightarrow> ModuleRegistry \<Rightarrow> bool" where
  "registry_inv deps reg =
     (distinct (start_order reg) \<and> map fst (started_modules reg) = rev (start_order reg) \<and>
      calls reg = map CallStart (start_order reg) \<and> deps_started deps reg)"

text \<open>
  A module that a run starts was started by a call of \<open>Start\<close> for it, on a registry
  in which it was not started, with less depth left.
\<close>

definition started_by_call ::
  "(ModuleFactory \<Rightarrow> ModuleFactory list) \<Rightarrow> Thread \<Rightarrow> nat \<Rightarrow> ModuleRegistry \<Rightarrow> ModuleFactory \<Rightarrow> bool" where
  "started_by_call deps th f r x =
     (\<exists>g r0 mid0. Suc g \<le> f \<and> deps_started deps r0 \<and>
        (\<forall>y. is_started r y \<longrightarrow> is_started r0 y) \<and> \<not> is_started r0 x \<and>
        start_all (Start g deps th) (deps x) r0 = Some mid0)"

section \<open>Vocabulary of the properties\<close>

text \<open>The representation invariant of the map: keys strictly ascending.\<close>

definition std_map_ok :: "handler_map \<Rightarrow> bool" where
  "std_map_ok m = sorted_wrt (<) (map fst m)"

text \<open>An iterator that may be compared, and dereferenced unless it is \<^verbatim>\<open>end()\<close>.\<close>

definition valid_iterator :: "handler_map \<Rightarrow> map_iterator \<Rightarrow> bool" where
  "valid_iterator m it =
     (case it of At k \<Rightarrow> k \<in> set (map fst m) | End \<Rightarrow> True | Singular \<Rightarrow> False)"

text \<open>
  The position of an iterator: the number of nodes before it in key order;
  \<^verbatim>\<open>end()\<close> is at position \<^verbatim>\<open>size()\<close>.
\<close>

definition position :: "handler_map \<Rightarrow> map_iterator \<Rightarrow> nat" where
  "position m it =
     (case it of At k \<Rightarrow> length (takeWhile (\<lambda>kv. fst kv \<noteq> k) m) | _ \<Rightarrow> length m)"

definition cursor_position :: "RoundRobinScheduler \<Rightarrow> nat" where
  "cursor_position s = position (acl_queue_handlers s) (starting_point s)"

definition any_dequeue_registered :: "handler_map \<Rightarrow> bool" where
  "any_dequeue_registered m = list_ex (\<lambda>kv. dequeue_is_registered (snd kv)) m"

definition credits_available :: "ConnectionType \<Rightarrow> RoundRobinScheduler \<Rightarrow> 16 word" where
  "credits_available K s = (if K = CLASSIC then acl_packet_credits s else le_acl_packet_credits s)"

definition credits_max :: "ConnectionType \<Rightarrow> RoundRobinScheduler \<Rightarrow> 16 word" where
  "credits_max K s =
     (if K = CLASSIC then max_acl_packet_credits s else le_max_acl_packet_credits s)"

text \<open>The outstanding-fragment counts of the connections of a kind, as 16-bit values.\<close>

definition sent_of_kind :: "ConnectionType \<Rightarrow> handler_map \<Rightarrow> 16 word list" where
  "sent_of_kind K m =
     map (\<lambda>kv. number_of_sent_packets (snd kv)) (filter (\<lambda>kv. connection_type (snd kv) = K) m)"

text \<open>The number of fragments of a kind that wait in the FIFO.\<close>

definition queued :: "ConnectionType \<Rightarrow> RoundRobinScheduler \<Rightarrow> nat" where
  "queued K s = length (filter (\<lambda>f. fst f = K) (fragments_to_send s))"

text \<open>
  The credit equation over the natural numbers: available credits plus the sum of the
  outstanding counts equals the maximum.
\<close>

definition credit_equation :: "ConnectionType \<Rightarrow> RoundRobinScheduler \<Rightarrow> bool" where
  "credit_equation K s =
     (unat (credits_available K s) + sum_list (map unat (sent_of_kind K (acl_queue_handlers s)))
        = unat (credits_max K s))"

text \<open>
  The credit balance in 16-bit arithmetic, which counts the fragments still in the FIFO:
  a fragment is added to the outstanding count when it is queued and takes its credit
  when it is dispatched.
\<close>

definition credit_balance :: "ConnectionType \<Rightarrow> RoundRobinScheduler \<Rightarrow> bool" where
  "credit_balance K s =
     (credits_available K s + sum_list (sent_of_kind K (acl_queue_handlers s))
        = credits_max K s + of_nat (queued K s))"

text \<open>
  An event that drops no outstanding count: \<open>Unregister\<close> and \<open>SetDisconnect\<close> only of
  a connection whose outstanding count is 0 (or of an unknown handle).
\<close>

fun reclaim_free :: "event \<Rightarrow> RoundRobinScheduler \<Rightarrow> bool" where
  "reclaim_free (DoUnregister h) s =
     (case map_of (acl_queue_handlers s) h of
        None \<Rightarrow> True | Some r \<Rightarrow> number_of_sent_packets r = 0)"
| "reclaim_free (DoSetDisconnect h) s =
     (case map_of (acl_queue_handlers s) h of
        None \<Rightarrow> True | Some r \<Rightarrow> number_of_sent_packets r = 0)"
| "reclaim_free _ s = True"

fun run_reclaim_free :: "event list \<Rightarrow> RoundRobinScheduler \<Rightarrow> bool" where
  "run_reclaim_free [] s = True"
| "run_reclaim_free (e # es) s =
     (reclaim_free e s \<and>
      (case fire e s of Inl x \<Rightarrow> True | Inr s' \<Rightarrow> run_reclaim_free es s'))"

text \<open>
  The dequeue property as the spec words it: a registered dequeue means an empty FIFO and
  a positive pool of the connection's own kind.
\<close>

definition dequeue_needs_own_credit :: "RoundRobinScheduler \<Rightarrow> bool" where
  "dequeue_needs_own_credit s =
     list_all (\<lambda>kv. dequeue_is_registered (snd kv) \<longrightarrow>
                 fragments_to_send s = [] \<and>
                 credits_available (connection_type (snd kv)) s > 0)
       (acl_queue_handlers s)"

text \<open>
  Its failure: some connection has its dequeue registered while the FIFO is not empty or
  the pool of the connection's own kind is 0.
\<close>

definition dequeue_without_own_credit :: "RoundRobinScheduler \<Rightarrow> bool" where
  "dequeue_without_own_credit s =
     list_ex (\<lambda>kv. dequeue_is_registered (snd kv) \<and>
                 \<not> (fragments_to_send s = [] \<and>
                    credits_available (connection_type (snd kv)) s > 0))
       (acl_queue_handlers s)"

text \<open>The part of it that the code keeps: a registered dequeue means an empty FIFO.\<close>

definition dequeue_needs_empty_fifo :: "RoundRobinScheduler \<Rightarrow> bool" where
  "dequeue_needs_empty_fifo s =
     (any_dequeue_registered (acl_queue_handlers s) \<longrightarrow> fragments_to_send s = [])"

text \<open>The fragments that \<open>BufferPacket\<close> appends to the FIFO for a payload.\<close>

definition packet_fragments ::
  "ConnectionType \<Rightarrow> 16 word \<Rightarrow> nat \<Rightarrow> octets \<Rightarrow> (ConnectionType \<times> AclPacketBuilder) list" where
  "packet_fragments ct h mtu p =
     (if length p \<le> mtu
      then [(ct, Create h FIRST_AUTOMATICALLY_FLUSHABLE POINT_TO_POINT p)]
      else push_fragments ct h POINT_TO_POINT FIRST_AUTOMATICALLY_FLUSHABLE (GetFragments mtu p))"

text \<open>The iterator at which a registration pass starts.\<close>

definition pass_start :: "RoundRobinScheduler \<Rightarrow> map_iterator" where
  "pass_start s =
     (if length (acl_queue_handlers s) = 1 \<or> starting_point s = End
      then std_map_begin (acl_queue_handlers s) else starting_point s)"

text \<open>
  A scheduler that has never run a registration pass: the cursor is still the
  default-constructed iterator, nothing was queued, sent or posted, and either no
  connection is registered or the controller has no buffers at all.
\<close>

definition never_scheduled :: "RoundRobinScheduler \<Rightarrow> bool" where
  "never_scheduled s =
     (starting_point s = Singular \<and> fragments_to_send s = [] \<and> \<not> enqueue_registered s \<and>
      posted_start_round_robin s = 0 \<and>
      \<not> any_dequeue_registered (acl_queue_handlers s) \<and>
      list_all (\<lambda>kv. number_of_sent_packets (snd kv) = 0) (acl_queue_handlers s) \<and>
      acl_packet_credits s = max_acl_packet_credits s \<and>
      le_acl_packet_credits s = le_max_acl_packet_credits s \<and>
      (acl_queue_handlers s = [] \<or> (acl_packet_credits s = 0 \<and> le_acl_packet_credits s = 0)))"

text \<open>What every run keeps true.\<close>

definition scheduler_inv :: "RoundRobinScheduler \<Rightarrow> bool" where
  "scheduler_inv s =
     (std_map_ok (acl_queue_handlers s) \<and> dequeue_needs_empty_fifo s \<and>
      (valid_iterator (acl_queue_handlers s) (starting_point s) \<or> never_scheduled s))"

section \<open>Scenario states\<close>

text \<open>
  Two classic connections, classic maximum 2, one fragment of each sent to the controller:
  both classic credits are consumed.
\<close>

definition both_credits_consumed :: RoundRobinScheduler where
  "both_credits_consumed =
     \<lparr> acl_queue_handlers =
         [(64, \<lparr> connection_type = CLASSIC, queue_down_end = 0, dequeue_is_registered = False,
                number_of_sent_packets = 1, is_disconnected = False \<rparr>),
          (65, \<lparr> connection_type = CLASSIC, queue_down_end = 1, dequeue_is_registered = False,
                number_of_sent_packets = 1, is_disconnected = False \<rparr>)],
       fragments_to_send = [],
       max_acl_packet_credits = 2, acl_packet_credits = 0,
       le_max_acl_packet_credits = 0, le_acl_packet_credits = 0,
       hci_mtu = 27, le_hci_mtu = 27,
       enqueue_registered = False, starting_point = End, posted_start_round_robin = 0 \<rparr>"

text \<open>One classic connection, just registered: its dequeue is registered.\<close>

definition one_classic_link :: RoundRobinScheduler where
  "one_classic_link =
     \<lparr> acl_queue_handlers =
         [(64, \<lparr> connection_type = CLASSIC, queue_down_end = 0, dequeue_is_registered = True,
                number_of_sent_packets = 0, is_disconnected = False \<rparr>)],
       fragments_to_send = [],
       max_acl_packet_credits = 2, acl_packet_credits = 2,
       le_max_acl_packet_credits = 0, le_acl_packet_credits = 0,
       hci_mtu = 27, le_hci_mtu = 27,
       enqueue_registered = False, starting_point = End, posted_start_round_robin = 0 \<rparr>"

text \<open>
  One classic connection with classic maximum 2: after its first payload was queued, and
  after the fragment was dispatched and the posted registration pass has run.
  The last state has one classic and one LE credit, and the classic credit is consumed.
\<close>

definition one_fragment_queued :: RoundRobinScheduler where
  "one_fragment_queued =
     \<lparr> acl_queue_handlers =
         [(64, \<lparr> connection_type = CLASSIC, queue_down_end = 0, dequeue_is_registered = False,
                number_of_sent_packets = 1, is_disconnected = False \<rparr>)],
       fragments_to_send =
         [(CLASSIC, \<lparr> acl_handle = 64, packet_boundary_flag = FIRST_AUTOMATICALLY_FLUSHABLE,
                      broadcast_flag = POINT_TO_POINT, acl_payload = [0] \<rparr>)],
       max_acl_packet_credits = 2, acl_packet_credits = 2,
       le_max_acl_packet_credits = 0, le_acl_packet_credits = 0,
       hci_mtu = 27, le_hci_mtu = 27,
       enqueue_registered = True, starting_point = End, posted_start_round_robin = 0 \<rparr>"

definition one_fragment_sent :: RoundRobinScheduler where
  "one_fragment_sent =
     \<lparr> acl_queue_handlers =
         [(64, \<lparr> connection_type = CLASSIC, queue_down_end = 0, dequeue_is_registered = True,
                number_of_sent_packets = 1, is_disconnected = False \<rparr>)],
       fragments_to_send = [],
       max_acl_packet_credits = 2, acl_packet_credits = 1,
       le_max_acl_packet_credits = 0, le_acl_packet_credits = 0,
       hci_mtu = 27, le_hci_mtu = 27,
       enqueue_registered = False, starting_point = End, posted_start_round_robin = 0 \<rparr>"

definition classic_fragment_dispatched :: RoundRobinScheduler where
  "classic_fragment_dispatched =
     \<lparr> acl_queue_handlers =
         [(64, \<lparr> connection_type = CLASSIC, queue_down_end = 0, dequeue_is_registered = False,
                number_of_sent_packets = 1, is_disconnected = False \<rparr>)],
       fragments_to_send = [],
       max_acl_packet_credits = 1, acl_packet_credits = 0,
       le_max_acl_packet_credits = 1, le_acl_packet_credits = 1,
       hci_mtu = 27, le_hci_mtu = 27,
       enqueue_registered = False, starting_point = End, posted_start_round_robin = 1 \<rparr>"

definition classic_pool_empty_le_pool_not :: RoundRobinScheduler where
  "classic_pool_empty_le_pool_not =
     \<lparr> acl_queue_handlers =
         [(64, \<lparr> connection_type = CLASSIC, queue_down_end = 0, dequeue_is_registered = True,
                number_of_sent_packets = 1, is_disconnected = False \<rparr>)],
       fragments_to_send = [],
       max_acl_packet_credits = 1, acl_packet_credits = 0,
       le_max_acl_packet_credits = 1, le_acl_packet_credits = 1,
       hci_mtu = 27, le_hci_mtu = 27,
       enqueue_registered = False, starting_point = End, posted_start_round_robin = 0 \<rparr>"

text \<open>
  The scenario with both classic credits consumed, after the controller has reported 2
  completed packets for handle 64, which has 1 outstanding.
\<close>

definition excess_credits_returned :: RoundRobinScheduler where
  "excess_credits_returned =
     \<lparr> acl_queue_handlers =
         [(64, \<lparr> connection_type = CLASSIC, queue_down_end = 0, dequeue_is_registered = True,
                number_of_sent_packets = 65535, is_disconnected = False \<rparr>),
          (65, \<lparr> connection_type = CLASSIC, queue_down_end = 1, dequeue_is_registered = True,
                number_of_sent_packets = 1, is_disconnected = False \<rparr>)],
       fragments_to_send = [],
       max_acl_packet_credits = 2, acl_packet_credits = 2,
       le_max_acl_packet_credits = 0, le_acl_packet_credits = 0,
       hci_mtu = 27, le_hci_mtu = 27,
       enqueue_registered = False, starting_point = At 65, posted_start_round_robin = 0 \<rparr>"


section \<open>Properties of the scheduler\<close>

subsection \<open>Fragmentation\<close>

lemma concat_GetFragments: "0 < mtu \<Longrightarrow> concat (GetFragments mtu p) = p"
proof (induction mtu p rule: GetFragments.induct)
  case (1 mtu packet)
  then show ?case
    by (subst GetFragments.simps) auto
qed

lemma ceil_div_one: "0 < n \<Longrightarrow> n \<le> m \<Longrightarrow> (n + m - Suc 0) div m = Suc 0"
proof -
  assume a: "0 < n" "n \<le> m"
  then have "n + m - 1 = m + (n - 1)" by simp
  moreover have "(m + (n - 1)) div m = (n - 1) div m + 1"
    using a by (intro div_add_self1) simp
  moreover have "(n - 1) div m = 0" using a by simp
  ultimately show ?thesis by simp
qed

lemma ceil_div_step:
  "0 < m \<Longrightarrow> m < n \<Longrightarrow> (n + m - Suc 0) div m = Suc ((n - m + m - Suc 0) div m)"
proof -
  assume a: "0 < m" "m < n"
  then have "n + m - Suc 0 = (n - m + m - Suc 0) + m" by simp
  then have "(n + m - Suc 0) div m = ((n - m + m - Suc 0) + m) div m" by (rule arg_cong)
  also have "\<dots> = (n - m + m - Suc 0) div m + 1"
    using a by (intro div_add_self2) simp
  finally show ?thesis by simp
qed

lemma ceil_div_pos: "0 < m \<Longrightarrow> 0 < n \<Longrightarrow> 0 < (n + m - Suc 0) div (m::nat)"
proof -
  assume a: "0 < m" "0 < n"
  then have "m \<le> n + m - Suc 0" by simp
  then have "m div m \<le> (n + m - Suc 0) div m" by (rule div_le_mono)
  with a show ?thesis by simp
qed

lemma length_GetFragments:
  "0 < mtu \<Longrightarrow> length (GetFragments mtu p) = (length p + mtu - Suc 0) div mtu"
proof (induction mtu p rule: GetFragments.induct)
  case (1 mtu packet)
  show ?case
  proof (cases "packet = []")
    case True
    with 1 show ?thesis by (subst GetFragments.simps) simp
  next
    case False
    with 1 have ih: "length (GetFragments mtu (drop mtu packet)) =
        (length packet - mtu + mtu - Suc 0) div mtu" by simp
    have unfold: "length (GetFragments mtu packet) =
        Suc (length (GetFragments mtu (drop mtu packet)))"
      using False 1(2) by (subst GetFragments.simps) simp
    show ?thesis
    proof (cases "length packet \<le> mtu")
      case True
      from False have "0 < length packet" by simp
      with True have "(length packet + mtu - Suc 0) div mtu = Suc 0"
        by (simp add: ceil_div_one)
      moreover from True have "GetFragments mtu (drop mtu packet) = []"
        by (subst GetFragments.simps) simp
      ultimately show ?thesis using unfold by simp
    next
      case gt: False
      then have "(length packet + mtu - Suc 0) div mtu =
          Suc ((length packet - mtu + mtu - Suc 0) div mtu)"
        using 1(2) by (intro ceil_div_step) simp_all
      with ih unfold show ?thesis by simp
    qed
  qed
qed

lemma GetFragments_sizes:
  "0 < mtu \<Longrightarrow> f \<in> set (GetFragments mtu p) \<Longrightarrow> 0 < length f \<and> length f \<le> mtu"
proof (induction mtu p rule: GetFragments.induct)
  case (1 mtu packet)
  from 1(3) have ne: "packet \<noteq> []" by (subst (asm) GetFragments.simps) (auto split: if_splits)
  from 1(3) ne 1(2) have "f = take mtu packet \<or> f \<in> set (GetFragments mtu (drop mtu packet))"
    by (subst (asm) GetFragments.simps) auto
  then show ?case using 1 ne by auto
qed

lemma push_fragments_fst: "map fst (push_fragments ct h bc pb fs) = replicate (length fs) ct"
  by (induction fs arbitrary: pb) auto

lemma push_fragments_handle:
  "map (\<lambda>f. acl_handle (snd f)) (push_fragments ct h bc pb fs) = replicate (length fs) h"
  by (induction fs arbitrary: pb) (auto simp: Create_def)

lemma push_fragments_payload:
  "map (\<lambda>f. acl_payload (snd f)) (push_fragments ct h bc pb fs) = fs"
  by (induction fs arbitrary: pb) (auto simp: Create_def)

lemma push_fragments_continuing:
  "map (\<lambda>f. packet_boundary_flag (snd f)) (push_fragments ct h bc CONTINUING_FRAGMENT fs) =
     replicate (length fs) CONTINUING_FRAGMENT"
  by (induction fs) (auto simp: Create_def)

lemma push_fragments_flags:
  "map (\<lambda>f. packet_boundary_flag (snd f)) (push_fragments ct h bc pb fs) =
     take (length fs) (pb # replicate (length fs - 1) CONTINUING_FRAGMENT)"
  by (cases fs) (auto simp: Create_def push_fragments_continuing)

lemma length_push_fragments: "length (push_fragments ct h bc pb fs) = length fs"
  by (induction fs arbitrary: pb) auto

subsection \<open>Map operations\<close>

lemma keys_std_map_modify [simp]: "map fst (std_map_modify k f m) = map fst m"
  by (induction m) (auto simp: std_map_modify_def)

lemma UnregisterAllConnections_eq:
  "UnregisterAllConnections m = map (\<lambda>kv. (fst kv, (snd kv)\<lparr>dequeue_is_registered := False\<rparr>)) m"
  by (induction m) (auto simp: UnregisterAllConnections_def)

lemma keys_UnregisterAllConnections [simp]: "map fst (UnregisterAllConnections m) = map fst m"
  by (simp add: UnregisterAllConnections_eq comp_def)

lemma UnregisterAllConnections_modify_flag [simp]:
  "UnregisterAllConnections (std_map_modify k (\<lambda>r. r\<lparr>dequeue_is_registered := b\<rparr>) m) =
     UnregisterAllConnections m"
  by (induction m) (auto simp: UnregisterAllConnections_eq std_map_modify_def)

lemma set_std_map_insert: "set (std_map_insert k v m) \<subseteq> insert (k, v) (set m)"
  by (induction m) (auto split: if_splits)

lemma set_std_map_insert_mono: "set m \<subseteq> set (std_map_insert k v m)"
  by (induction m) (auto split: if_splits)

lemma key_in_std_map_insert: "k \<in> fst ` set (std_map_insert k v m)"
proof -
  have "\<exists>v'. (k, v') \<in> set (std_map_insert k v m)"
    by (induction m) (auto split: if_splits)
  then show ?thesis by force
qed

lemma keys_std_map_insert: "set (map fst (std_map_insert k v m)) = insert k (set (map fst m))"
proof -
  have "fst ` set (std_map_insert k v m) \<subseteq> insert k (fst ` set m)"
    using set_std_map_insert [of k v m] by force
  moreover have "insert k (fst ` set m) \<subseteq> fst ` set (std_map_insert k v m)"
    using set_std_map_insert_mono [of m k v] key_in_std_map_insert [of k v m] by force
  ultimately show ?thesis by auto
qed

lemma std_map_ok_insert: "std_map_ok m \<Longrightarrow> std_map_ok (std_map_insert k v m)"
proof (induction m)
  case Nil
  then show ?case by (simp add: std_map_ok_def)
next
  case (Cons a m)
  obtain k' v' where a: "a = (k', v')" by (cases a)
  from Cons.prems have tl: "std_map_ok m" and hd: "\<forall>x\<in>set (map fst m). k' < x"
    by (auto simp: std_map_ok_def a)
  show ?case
  proof (cases "k < k'")
    case True
    with Cons.prems show ?thesis by (auto simp: std_map_ok_def a)
  next
    case False
    show ?thesis
    proof (cases "k = k'")
      case True
      with Cons.prems show ?thesis by (simp add: a)
    next
      case ne: False
      with False have "k' < k" by simp
      with hd Cons.IH [OF tl] False ne show ?thesis
        using keys_std_map_insert [of k v m] by (auto simp: std_map_ok_def a)
    qed
  qed
qed

lemma std_map_ok_erase: "std_map_ok m \<Longrightarrow> std_map_ok (std_map_erase k m)"
  by (induction m) (auto simp: std_map_ok_def std_map_erase_def)

lemma std_map_ok_distinct: "std_map_ok m \<Longrightarrow> distinct (map fst m)"
  by (simp add: std_map_ok_def strict_sorted_iff)

lemma std_map_insert_present:
  "std_map_ok m \<Longrightarrow> k \<in> set (map fst m) \<Longrightarrow> std_map_insert k v m = m"
proof (induction m)
  case Nil
  then show ?case by simp
next
  case (Cons a m)
  obtain k' v' where a: "a = (k', v')" by (cases a)
  from Cons.prems have tl: "std_map_ok m" and hd: "\<forall>x\<in>set (map fst m). k' < x"
    by (auto simp: std_map_ok_def a)
  show ?case
  proof (cases "k = k'")
    case True
    then show ?thesis by (simp add: a)
  next
    case False
    with Cons.prems have "k \<in> set (map fst m)" by (simp add: a)
    with hd have "k' < k" by blast
    with Cons.IH [OF tl \<open>k \<in> set (map fst m)\<close>] False show ?thesis by (simp add: a)
  qed
qed

subsection \<open>Iterators\<close>

lemma case_map_fst:
  "(case map fst xs of [] \<Rightarrow> a | [x] \<Rightarrow> b | x # y # zs \<Rightarrow> c y) =
   (case xs of [] \<Rightarrow> a | [x] \<Rightarrow> b | x # y # zs \<Rightarrow> c (fst y))"
  by (auto split: list.splits)

lemma std_next_keys:
  "std_next m it =
     (case it of
        At k \<Rightarrow>
          (case dropWhile (\<lambda>x. x \<noteq> k) (map fst m) of
             [] \<Rightarrow> Inl UndefinedBehaviour
           | _ # [] \<Rightarrow> Inr End
           | _ # k' # _ \<Rightarrow> Inr (At k'))
      | _ \<Rightarrow> Inl UndefinedBehaviour)"
  by (cases it) (simp_all add: std_next_def dropWhile_map comp_def case_map_fst)

lemma position_keys:
  "position m it =
     (case it of At k \<Rightarrow> length (takeWhile (\<lambda>x. x \<noteq> k) (map fst m)) | _ \<Rightarrow> length (map fst m))"
  by (cases it) (simp_all add: position_def takeWhile_map comp_def)

lemma std_map_begin_keys:
  "std_map_begin m = (case map fst m of [] \<Rightarrow> End | k # _ \<Rightarrow> At k)"
  by (auto simp: std_map_begin_def split: list.splits)

lemma valid_iterator_keys:
  "map fst m' = map fst m \<Longrightarrow> valid_iterator m' it = valid_iterator m it"
  by (cases it) (simp_all add: valid_iterator_def)

lemma std_next_cong: "map fst m' = map fst m \<Longrightarrow> std_next m' it = std_next m it"
  by (cases it) (simp_all add: std_next_keys)

lemma position_cong: "map fst m' = map fst m \<Longrightarrow> position m' it = position m it"
  by (cases it) (simp_all add: position_keys)

lemma std_next_At_valid:
  assumes "k \<in> set (map fst m)"
  shows "\<exists>it'. std_next m (At k) = Inr it' \<and> it' \<noteq> Singular \<and> valid_iterator m it'"
proof -
  let ?d = "dropWhile (\<lambda>x. x \<noteq> k) (map fst m)"
  from assms have ne: "?d \<noteq> []" by auto
  then obtain x rest where d: "?d = x # rest" by (cases ?d) auto
  show ?thesis
  proof (cases rest)
    case Nil
    with d show ?thesis by (simp add: std_next_keys valid_iterator_def)
  next
    case (Cons k' rest')
    with d have "k' \<in> set ?d" by simp
    then have "k' \<in> set (map fst m)" by (rule set_dropWhileD)
    with d Cons show ?thesis by (simp add: std_next_keys valid_iterator_def)
  qed
qed

lemma std_next_At_result:
  "std_next m (At k) = Inr it' \<Longrightarrow> it' = End \<or> (\<exists>k'. it' = At k' \<and> k' \<in> set (map fst m))"
proof -
  assume a: "std_next m (At k) = Inr it'"
  let ?d = "dropWhile (\<lambda>x. x \<noteq> k) (map fst m)"
  show ?thesis
  proof (cases ?d)
    case Nil
    with a show ?thesis by (simp add: std_next_keys)
  next
    case (Cons x rest)
    show ?thesis
    proof (cases rest)
      case Nil
      with Cons a show ?thesis by (simp add: std_next_keys)
    next
      case (Cons k' rest')
      with \<open>?d = x # rest\<close> have "k' \<in> set ?d" by simp
      then have "k' \<in> set (map fst m)" by (rule set_dropWhileD)
      with Cons \<open>?d = x # rest\<close> a show ?thesis by (auto simp: std_next_keys)
    qed
  qed
qed

lemma std_next_position:
  "distinct (map fst m) \<Longrightarrow> k \<in> set (map fst m) \<Longrightarrow> std_next m (At k) = Inr it' \<Longrightarrow>
   position m it' = Suc (position m (At k))"
proof (induction m)
  case Nil
  then show ?case by simp
next
  case (Cons a m)
  show ?case
  proof (cases "fst a = k")
    case True
    show ?thesis
    proof (cases m)
      case Nil
      with True Cons.prems show ?thesis by (auto simp: std_next_def position_def)
    next
      case (Cons b m')
      with True Cons.prems(1) have "fst b \<noteq> k" by auto
      with Cons True Cons.prems show ?thesis by (auto simp: std_next_def position_def)
    qed
  next
    case False
    with Cons.prems have k: "k \<in> set (map fst m)" and d: "distinct (map fst m)"
      and nx: "std_next m (At k) = Inr it'"
      by (auto simp: std_next_def)
    from Cons.IH [OF d k nx] have ih: "position m it' = Suc (position m (At k))" .
    from Cons.prems(1) have na: "fst a \<notin> set (map fst m)" by simp
    from std_next_At_result [OF nx] na
    have "it' = End \<or> (\<exists>k'. it' = At k' \<and> k' \<noteq> fst a)" by blast
    with ih False show ?thesis by (auto simp: position_def)
  qed
qed

subsection \<open>The loop of StartRoundRobin\<close>

lemma round_robin_loop_flags_only:
  "round_robin_loop n it m = Inr m' \<Longrightarrow>
   UnregisterAllConnections m' = UnregisterAllConnections m"
proof (induction n arbitrary: it m)
  case 0
  then show ?case by simp
next
  case (Suc n)
  from Suc.prems obtain k where it: "it = At k" by (cases it) auto
  with Suc.prems obtain r where r: "map_of m k = Some r" by (cases "map_of m k") auto
  let ?m1 = "if \<not> dequeue_is_registered r
             then std_map_modify k (\<lambda>r. r\<lparr>dequeue_is_registered := True\<rparr>) m else m"
  have m1: "UnregisterAllConnections ?m1 = UnregisterAllConnections m"
    by simp
  from Suc.prems it r have
    "(case std_next ?m1 (At k) of Inl e \<Rightarrow> Inl e
      | Inr it' \<Rightarrow> round_robin_loop n (if it' = End then std_map_begin ?m1 else it') ?m1) =
     Inr m'"
    by (simp add: Let_def)
  then obtain it' where
    "round_robin_loop n (if it' = End then std_map_begin ?m1 else it') ?m1 = Inr m'"
    by (cases "std_next ?m1 (At k)") auto
  from Suc.IH [OF this] m1 show ?case by simp
qed

lemma round_robin_loop_keys:
  "round_robin_loop n it m = Inr m' \<Longrightarrow> map fst m' = map fst m"
proof -
  assume "round_robin_loop n it m = Inr m'"
  then have "map fst (UnregisterAllConnections m') = map fst (UnregisterAllConnections m)"
    by (simp add: round_robin_loop_flags_only)
  then show ?thesis by simp
qed

lemma round_robin_loop_returns:
  "k \<in> set (map fst m) \<Longrightarrow> \<exists>m'. round_robin_loop n (At k) m = Inr m'"
proof (induction n arbitrary: k m)
  case 0
  then show ?case by simp
next
  case (Suc n)
  then obtain r where r: "map_of m k = Some r"
    by (cases "map_of m k") (auto simp: map_of_eq_None_iff)
  let ?m1 = "if \<not> dequeue_is_registered r
             then std_map_modify k (\<lambda>r. r\<lparr>dequeue_is_registered := True\<rparr>) m else m"
  have keys: "map fst ?m1 = map fst m" by simp
  with Suc.prems have k: "k \<in> set (map fst ?m1)" by simp
  from std_next_At_valid [OF k] obtain it' where
    nx: "std_next ?m1 (At k) = Inr it'" and v: "it' \<noteq> Singular" "valid_iterator ?m1 it'"
    by blast
  from k have ne: "?m1 \<noteq> []" by auto
  let ?it2 = "if it' = End then std_map_begin ?m1 else it'"
  from v ne obtain k2 where "?it2 = At k2" "k2 \<in> set (map fst ?m1)"
    by (cases it'; cases ?m1) (auto simp: std_map_begin_def valid_iterator_def)
  with Suc.IH [of k2 ?m1] obtain m' where "round_robin_loop n ?it2 ?m1 = Inr m'" by auto
  with r nx show ?case by (simp add: Let_def)
qed

subsection \<open>What StartRoundRobin leaves alone\<close>

lemma StartRoundRobin_frame:
  assumes "StartRoundRobin s = Inr s'"
  shows "fragments_to_send s' = fragments_to_send s"
    and "acl_packet_credits s' = acl_packet_credits s"
    and "le_acl_packet_credits s' = le_acl_packet_credits s"
    and "max_acl_packet_credits s' = max_acl_packet_credits s"
    and "le_max_acl_packet_credits s' = le_max_acl_packet_credits s"
    and "hci_mtu s' = hci_mtu s" and "le_hci_mtu s' = le_hci_mtu s"
    and "posted_start_round_robin s' = posted_start_round_robin s"
    and "UnregisterAllConnections (acl_queue_handlers s') =
         UnregisterAllConnections (acl_queue_handlers s)"
    and "fragments_to_send s \<noteq> [] \<Longrightarrow> acl_queue_handlers s' = acl_queue_handlers s"
    and "acl_packet_credits s = 0 \<Longrightarrow> le_acl_packet_credits s = 0 \<Longrightarrow>
         acl_queue_handlers s' = acl_queue_handlers s"
  using assms
  by (auto simp: StartRoundRobin_def SendNextFragment_def Let_def
      simp del: round_robin_loop.simps
      split: if_splits sum.splits dest: round_robin_loop_flags_only)

lemma StartRoundRobin_keys:
  "StartRoundRobin s = Inr s' \<Longrightarrow> map fst (acl_queue_handlers s') = map fst (acl_queue_handlers s)"
proof -
  assume "StartRoundRobin s = Inr s'"
  then have "map fst (UnregisterAllConnections (acl_queue_handlers s')) =
      map fst (UnregisterAllConnections (acl_queue_handlers s))"
    by (simp add: StartRoundRobin_frame)
  then show ?thesis by simp
qed

subsection \<open>Dequeue flags\<close>

lemma any_dequeue_registered_UnregisterAll [simp]:
  "\<not> any_dequeue_registered (UnregisterAllConnections m)"
  by (simp add: any_dequeue_registered_def UnregisterAllConnections_eq list_ex_iff)

lemma any_dequeue_registered_insert [simp]:
  "any_dequeue_registered
     (std_map_insert h \<lparr> connection_type = ct, queue_down_end = q, dequeue_is_registered = False,
                         number_of_sent_packets = n, is_disconnected = d \<rparr> m) =
   any_dequeue_registered m"
  by (induction m) (auto simp: any_dequeue_registered_def split: if_splits)

lemma any_dequeue_registered_erase:
  "any_dequeue_registered (std_map_erase h m) \<Longrightarrow> any_dequeue_registered m"
  by (force simp: any_dequeue_registered_def std_map_erase_def list_ex_iff)

lemma any_dequeue_registered_modify:
  "(\<And>r. dequeue_is_registered (f r) = dequeue_is_registered r) \<Longrightarrow>
   any_dequeue_registered (std_map_modify h f m) = any_dequeue_registered m"
  by (induction m) (auto simp: any_dequeue_registered_def std_map_modify_def)

lemma map_of_flag_any:
  "map_of m h = Some r \<Longrightarrow> dequeue_is_registered r \<Longrightarrow> any_dequeue_registered m"
  by (force simp: any_dequeue_registered_def list_ex_iff dest!: map_of_SomeD)

subsection \<open>Cursor after StartRoundRobin\<close>

lemma StartRoundRobin_no_pass:
  assumes "StartRoundRobin s = Inr s'"
    and "(acl_packet_credits s = 0 \<and> le_acl_packet_credits s = 0) \<or> fragments_to_send s \<noteq> []"
  shows "acl_queue_handlers s' = acl_queue_handlers s" and "starting_point s' = starting_point s"
  using assms by (auto simp: StartRoundRobin_def SendNextFragment_def split: if_splits)

lemma StartRoundRobin_both_zero:
  "acl_packet_credits s = 0 \<Longrightarrow> le_acl_packet_credits s = 0 \<Longrightarrow> StartRoundRobin s = Inr s"
  by (simp add: StartRoundRobin_def)

lemma StartRoundRobin_pass_cursor:
  assumes "StartRoundRobin s = Inr s'"
    and "acl_packet_credits s \<noteq> 0 \<or> le_acl_packet_credits s \<noteq> 0"
    and "fragments_to_send s = []"
  shows "valid_iterator (acl_queue_handlers s') (starting_point s')"
proof -
  from assms obtain m' sp sp' where
    nx: "std_next m' sp = Inr sp'" and s': "s' = s\<lparr>acl_queue_handlers := m', starting_point := sp'\<rparr>"
    by (auto simp: StartRoundRobin_def Let_def simp del: round_robin_loop.simps
        split: if_splits sum.splits)
  from nx obtain k where "sp = At k" by (cases sp) (auto simp: std_next_def)
  with nx std_next_At_result [of m' k sp'] have "valid_iterator m' sp'"
    by (force simp: valid_iterator_def)
  with s' show ?thesis by simp
qed

subsection \<open>The invariant of runs\<close>

lemma valid_iterator_insert:
  "valid_iterator m it \<Longrightarrow> valid_iterator (std_map_insert k v m) it"
  using keys_std_map_insert [of k v m] by (cases it) (auto simp: valid_iterator_def)

lemma valid_iterator_begin [simp]: "valid_iterator m (std_map_begin m)"
  by (cases m) (auto simp: valid_iterator_def std_map_begin_def)

lemma list_all_insert:
  "list_all P m \<Longrightarrow> P (k, v) \<Longrightarrow> list_all P (std_map_insert k v m)"
  by (induction m) (auto split: if_splits)

lemma new_inv: "scheduler_inv (RoundRobinScheduler_new a b c d)"
  by (simp add: scheduler_inv_def RoundRobinScheduler_new_def std_map_ok_def
      dequeue_needs_empty_fifo_def never_scheduled_def any_dequeue_registered_def)

lemma StartRoundRobin_inv:
  assumes inv: "scheduler_inv s" and run: "StartRoundRobin s = Inr s'"
  shows "scheduler_inv s'"
proof -
  note fr = StartRoundRobin_frame [OF run]
  have ok: "std_map_ok (acl_queue_handlers s')"
    using inv StartRoundRobin_keys [OF run] by (simp add: scheduler_inv_def std_map_ok_def)
  have deq: "dequeue_needs_empty_fifo s'"
  proof (cases "fragments_to_send s = []")
    case True
    with fr(1) show ?thesis by (simp add: dequeue_needs_empty_fifo_def)
  next
    case False
    with fr(10) have "acl_queue_handlers s' = acl_queue_handlers s" by simp
    with inv fr(1) show ?thesis by (simp add: scheduler_inv_def dequeue_needs_empty_fifo_def)
  qed
  have cur: "valid_iterator (acl_queue_handlers s') (starting_point s') \<or> never_scheduled s'"
  proof (cases "(acl_packet_credits s = 0 \<and> le_acl_packet_credits s = 0) \<or>
                fragments_to_send s \<noteq> []")
    case False
    then have "valid_iterator (acl_queue_handlers s') (starting_point s')"
      using StartRoundRobin_pass_cursor [OF run] by blast
    then show ?thesis ..
  next
    case True
    note same = StartRoundRobin_no_pass [OF run True]
    from inv have "valid_iterator (acl_queue_handlers s) (starting_point s) \<or> never_scheduled s"
      by (simp add: scheduler_inv_def)
    then show ?thesis
    proof
      assume "valid_iterator (acl_queue_handlers s) (starting_point s)"
      with same show ?thesis by simp
    next
      assume ns: "never_scheduled s"
      then have "fragments_to_send s = []" by (simp add: never_scheduled_def)
      with True have "acl_packet_credits s = 0 \<and> le_acl_packet_credits s = 0" by simp
      then have "StartRoundRobin s = Inr s" by (simp add: StartRoundRobin_both_zero)
      with run have "s' = s" by simp
      with ns show ?thesis by simp
    qed
  qed
  from ok deq cur show ?thesis by (simp add: scheduler_inv_def)
qed

lemma Register_inv:
  assumes inv: "scheduler_inv s" and run: "Register ct h q s = Inr s'"
  shows "scheduler_inv s'"
proof -
  let ?r0 = "\<lparr> connection_type = ct, queue_down_end = q, dequeue_is_registered = False,
               number_of_sent_packets = 0, is_disconnected = False \<rparr>"
  let ?s1 = "s\<lparr>acl_queue_handlers := std_map_insert h ?r0 (acl_queue_handlers s)\<rparr>"
  from run have r: "(if fragments_to_send s = [] then StartRoundRobin ?s1 else Inr ?s1) = Inr s'"
    by (simp add: Register_def Let_def)
  from inv have ok1: "std_map_ok (acl_queue_handlers ?s1)"
    by (simp add: scheduler_inv_def std_map_ok_insert)
  from inv have deq1: "dequeue_needs_empty_fifo ?s1"
    by (simp add: scheduler_inv_def dequeue_needs_empty_fifo_def)
  from inv have "valid_iterator (acl_queue_handlers s) (starting_point s) \<or> never_scheduled s"
    by (simp add: scheduler_inv_def)
  then show ?thesis
  proof
    assume "valid_iterator (acl_queue_handlers s) (starting_point s)"
    then have "valid_iterator (acl_queue_handlers ?s1) (starting_point ?s1)"
      by (simp add: valid_iterator_insert)
    with ok1 deq1 have inv1: "scheduler_inv ?s1" by (simp add: scheduler_inv_def)
    show ?thesis
    proof (cases "fragments_to_send s = []")
      case True
      with r have "StartRoundRobin ?s1 = Inr s'" by simp
      with inv1 show ?thesis by (rule StartRoundRobin_inv)
    next
      case False
      with r inv1 show ?thesis by simp
    qed
  next
    assume ns: "never_scheduled s"
    then have fifo: "fragments_to_send s = []" by (simp add: never_scheduled_def)
    with r have srr: "StartRoundRobin ?s1 = Inr s'" by simp
    show ?thesis
    proof (cases "acl_packet_credits s = 0 \<and> le_acl_packet_credits s = 0")
      case True
      then have "StartRoundRobin ?s1 = Inr ?s1" by (simp add: StartRoundRobin_both_zero)
      with srr have s': "s' = ?s1" by simp
      from ns True have "never_scheduled ?s1"
        by (simp add: never_scheduled_def list_all_insert)
      with ok1 deq1 s' show ?thesis by (simp add: scheduler_inv_def)
    next
      case False
      then have "acl_packet_credits ?s1 \<noteq> 0 \<or> le_acl_packet_credits ?s1 \<noteq> 0" by simp
      moreover from fifo have "fragments_to_send ?s1 = []" by simp
      ultimately have v: "valid_iterator (acl_queue_handlers s') (starting_point s')"
        by (rule StartRoundRobin_pass_cursor [OF srr])
      have ok: "std_map_ok (acl_queue_handlers s')"
        using ok1 StartRoundRobin_keys [OF srr] by (simp add: std_map_ok_def)
      have "fragments_to_send s' = []"
        using StartRoundRobin_frame(1) [OF srr] fifo by simp
      then have "dequeue_needs_empty_fifo s'" by (simp add: dequeue_needs_empty_fifo_def)
      with v ok show ?thesis by (simp add: scheduler_inv_def)
    qed
  qed
qed

lemma Unregister_inv:
  assumes inv: "scheduler_inv s" and run: "Unregister h s = Inr s'"
  shows "scheduler_inv s'"
proof -
  from run have s': "s' = s\<lparr>acl_queue_handlers := std_map_erase h (acl_queue_handlers s),
      starting_point := std_map_begin (std_map_erase h (acl_queue_handlers s))\<rparr>"
    by (auto simp: Unregister_def Let_def split: option.splits)
  from inv show ?thesis
    by (auto simp: s' scheduler_inv_def std_map_ok_erase dequeue_needs_empty_fifo_def
        dest: any_dequeue_registered_erase)
qed

lemma map_of_list_all: "map_of m h = Some r \<Longrightarrow> list_all P m \<Longrightarrow> P (h, r)"
  by (auto simp: list_all_iff dest: map_of_SomeD)

lemma SetDisconnect_inv:
  assumes inv: "scheduler_inv s" and run: "SetDisconnect h s = Inr s'"
  shows "scheduler_inv s'"
proof -
  from run obtain r where r: "map_of (acl_queue_handlers s) h = Some r"
    by (cases "map_of (acl_queue_handlers s) h") (auto simp: SetDisconnect_def)
  with run have s': "s' = (if connection_type r = CLASSIC
      then s\<lparr>acl_packet_credits := acl_packet_credits s + number_of_sent_packets r\<rparr>
      else s\<lparr>le_acl_packet_credits := le_acl_packet_credits s + number_of_sent_packets r\<rparr>)"
    by (auto simp: SetDisconnect_def Let_def)
  from inv have "valid_iterator (acl_queue_handlers s) (starting_point s) \<or> never_scheduled s"
    by (simp add: scheduler_inv_def)
  then show ?thesis
  proof
    assume "valid_iterator (acl_queue_handlers s) (starting_point s)"
    with inv show ?thesis by (simp add: s' scheduler_inv_def dequeue_needs_empty_fifo_def)
  next
    assume ns: "never_scheduled s"
    then have "list_all (\<lambda>kv. number_of_sent_packets (snd kv) = 0) (acl_queue_handlers s)"
      by (simp add: never_scheduled_def)
    from map_of_list_all [OF r this] have "number_of_sent_packets r = 0" by simp
    then have "s' = s" by (simp add: s')
    with inv show ?thesis by simp
  qed
qed

subsection \<open>BufferPacket, HandleEnqueueNextFragment, IncomingAclCredits\<close>

lemma BufferPacket_result:
  assumes "BufferPacket h (Some p) s = Inr s'"
  shows "\<exists>r. map_of (acl_queue_handlers s) h = Some r \<and>
    s' = s\<lparr>fragments_to_send :=
              fragments_to_send s @
                packet_fragments (connection_type r) h
                  (if connection_type r = CLASSIC then hci_mtu s else le_hci_mtu s) p,
            acl_queue_handlers :=
              std_map_modify h
                (\<lambda>r'. r'\<lparr>number_of_sent_packets :=
                          number_of_sent_packets r' +
                          of_nat (length (fragments_to_send s @
                            packet_fragments (connection_type r) h
                              (if connection_type r = CLASSIC then hci_mtu s else le_hci_mtu s) p))\<rparr>)
                (UnregisterAllConnections (acl_queue_handlers s)),
            enqueue_registered := True\<rparr>"
proof (cases "map_of (acl_queue_handlers s) h")
  case None
  with assms show ?thesis by (simp add: BufferPacket_def)
next
  case (Some r)
  with assms show ?thesis
    unfolding BufferPacket_def packet_fragments_def Let_def SendNextFragment_def
    by (simp split: if_splits)
qed

lemma BufferPacket_handlers:
  assumes "BufferPacket h (Some p) s = Inr s'"
  shows "map fst (acl_queue_handlers s') = map fst (acl_queue_handlers s)"
    and "starting_point s' = starting_point s"
    and "\<not> any_dequeue_registered (acl_queue_handlers s')"
  using BufferPacket_result [OF assms]
  by (auto simp: any_dequeue_registered_modify)

lemma BufferPacket_inv:
  assumes inv: "scheduler_inv s" and en: "enabled (DoBufferPacket h p) s"
    and run: "BufferPacket h (Some p) s = Inr s'"
  shows "scheduler_inv s'"
proof -
  note keys = BufferPacket_handlers(1) [OF run] and sp = BufferPacket_handlers(2) [OF run]
  from en have "any_dequeue_registered (acl_queue_handlers s)"
    by (auto split: option.splits dest: map_of_flag_any)
  then have "\<not> never_scheduled s" by (simp add: never_scheduled_def)
  with inv have "valid_iterator (acl_queue_handlers s) (starting_point s)"
    by (simp add: scheduler_inv_def)
  with sp have "valid_iterator (acl_queue_handlers s') (starting_point s')"
    by (simp add: valid_iterator_keys [OF keys])
  moreover from inv keys have "std_map_ok (acl_queue_handlers s')"
    by (simp add: scheduler_inv_def std_map_ok_def)
  moreover from BufferPacket_handlers(3) [OF run] have "dequeue_needs_empty_fifo s'"
    by (simp add: dequeue_needs_empty_fifo_def)
  ultimately show ?thesis by (simp add: scheduler_inv_def)
qed

lemma HandleEnqueueNextFragment_result:
  assumes "HandleEnqueueNextFragment s = Inr (pkt, s')"
  shows "\<exists>front rest e. fragments_to_send s = front # rest \<and> pkt = snd front \<and>
    0 < credits_available (fst front) s \<and>
    s' = s\<lparr>acl_packet_credits :=
              (if fst front = CLASSIC then acl_packet_credits s - 1 else acl_packet_credits s),
            le_acl_packet_credits :=
              (if fst front = CLASSIC then le_acl_packet_credits s
               else le_acl_packet_credits s - 1),
            fragments_to_send := rest, enqueue_registered := e,
            posted_start_round_robin :=
              (if rest = [] then posted_start_round_robin s + 1
               else posted_start_round_robin s)\<rparr>"
proof (cases "fragments_to_send s")
  case Nil
  with assms show ?thesis by (simp add: HandleEnqueueNextFragment_def)
next
  case (Cons front rest)
  show ?thesis
  proof (cases "fst front = CLASSIC")
    case True
    with assms Cons show ?thesis
      unfolding HandleEnqueueNextFragment_def Let_def credits_available_def
      by (cases rest) (auto split: if_splits intro: exI [of _ "enqueue_registered s"])
  next
    case False
    with assms Cons show ?thesis
      unfolding HandleEnqueueNextFragment_def Let_def credits_available_def
      by (cases rest) (auto split: if_splits intro: exI [of _ "enqueue_registered s"])
  qed
qed

lemma HandleEnqueueNextFragment_frame:
  assumes "HandleEnqueueNextFragment s = Inr (pkt, s')"
  shows "acl_queue_handlers s' = acl_queue_handlers s"
    and "starting_point s' = starting_point s"
    and "fragments_to_send s \<noteq> []"
    and "fragments_to_send s' = tl (fragments_to_send s)"
  using HandleEnqueueNextFragment_result [OF assms] by auto

lemma HandleEnqueueNextFragment_inv:
  assumes inv: "scheduler_inv s" and en: "enqueue_registered s"
    and run: "HandleEnqueueNextFragment s = Inr (pkt, s')"
  shows "scheduler_inv s'"
proof -
  note fr = HandleEnqueueNextFragment_frame [OF run]
  from en have "\<not> never_scheduled s" by (simp add: never_scheduled_def)
  with inv have v: "valid_iterator (acl_queue_handlers s) (starting_point s)"
    by (simp add: scheduler_inv_def)
  from inv fr(3) have "\<not> any_dequeue_registered (acl_queue_handlers s)"
    by (auto simp: scheduler_inv_def dequeue_needs_empty_fifo_def)
  with fr(1) have "dequeue_needs_empty_fifo s'" by (simp add: dequeue_needs_empty_fifo_def)
  with inv v fr(1,2) show ?thesis by (simp add: scheduler_inv_def)
qed

lemma std_map_modify_id: "(\<And>r. f r = r) \<Longrightarrow> std_map_modify h f m = m"
  by (induction m) (auto simp: std_map_modify_def)

lemma IncomingAclCredits_result:
  assumes "IncomingAclCredits h n s = Inr s'"
  shows "s' = s \<or>
    (\<exists>r s2. map_of (acl_queue_handlers s) h = Some r \<and> \<not> is_disconnected r \<and>
       s2 = s\<lparr>acl_queue_handlers :=
                 std_map_modify h
                   (\<lambda>r. r\<lparr>number_of_sent_packets := number_of_sent_packets r - n\<rparr>)
                   (acl_queue_handlers s),
               acl_packet_credits :=
                 (if connection_type r = CLASSIC then acl_packet_credits s + n
                  else acl_packet_credits s),
               le_acl_packet_credits :=
                 (if connection_type r = CLASSIC then le_acl_packet_credits s
                  else le_acl_packet_credits s + n)\<rparr> \<and>
       acl_packet_credits s2 \<le> max_acl_packet_credits s \<and>
       le_acl_packet_credits s2 \<le> le_max_acl_packet_credits s \<and>
       (s' = s2 \<or> StartRoundRobin s2 = Inr s'))"
proof (cases "map_of (acl_queue_handlers s) h")
  case None
  with assms show ?thesis by (simp add: IncomingAclCredits_def)
next
  case (Some r)
  show ?thesis
  proof (cases "is_disconnected r")
    case True
    with Some assms show ?thesis by (simp add: IncomingAclCredits_def)
  next
    case False
    show ?thesis
    proof (cases "connection_type r = CLASSIC")
      case True
      with assms Some False show ?thesis
        unfolding IncomingAclCredits_def Let_def
        by (auto split: if_splits)
    next
      case ne: False
      with assms Some False show ?thesis
        unfolding IncomingAclCredits_def Let_def
        by (auto split: if_splits)
    qed
  qed
qed

lemma IncomingAclCredits_inv:
  assumes inv: "scheduler_inv s" and run: "IncomingAclCredits h n s = Inr s'"
  shows "scheduler_inv s'"
proof -
  from IncomingAclCredits_result [OF run] show ?thesis
  proof
    assume "s' = s"
    with inv show ?thesis by simp
  next
    assume "\<exists>r s2. map_of (acl_queue_handlers s) h = Some r \<and> \<not> is_disconnected r \<and>
       s2 = s\<lparr>acl_queue_handlers :=
                 std_map_modify h
                   (\<lambda>r. r\<lparr>number_of_sent_packets := number_of_sent_packets r - n\<rparr>)
                   (acl_queue_handlers s),
               acl_packet_credits :=
                 (if connection_type r = CLASSIC then acl_packet_credits s + n
                  else acl_packet_credits s),
               le_acl_packet_credits :=
                 (if connection_type r = CLASSIC then le_acl_packet_credits s
                  else le_acl_packet_credits s + n)\<rparr> \<and>
       acl_packet_credits s2 \<le> max_acl_packet_credits s \<and>
       le_acl_packet_credits s2 \<le> le_max_acl_packet_credits s \<and>
       (s' = s2 \<or> StartRoundRobin s2 = Inr s')"
    then obtain r s2 where r: "map_of (acl_queue_handlers s) h = Some r"
      and s2: "s2 = s\<lparr>acl_queue_handlers :=
                 std_map_modify h
                   (\<lambda>r. r\<lparr>number_of_sent_packets := number_of_sent_packets r - n\<rparr>)
                   (acl_queue_handlers s),
               acl_packet_credits :=
                 (if connection_type r = CLASSIC then acl_packet_credits s + n
                  else acl_packet_credits s),
               le_acl_packet_credits :=
                 (if connection_type r = CLASSIC then le_acl_packet_credits s
                  else le_acl_packet_credits s + n)\<rparr>"
      and le: "acl_packet_credits s2 \<le> max_acl_packet_credits s"
        "le_acl_packet_credits s2 \<le> le_max_acl_packet_credits s"
      and res: "s' = s2 \<or> StartRoundRobin s2 = Inr s'" by blast
    have keys: "map fst (acl_queue_handlers s2) = map fst (acl_queue_handlers s)"
      by (simp add: s2)
    have inv2: "scheduler_inv s2"
    proof -
      from inv have "valid_iterator (acl_queue_handlers s) (starting_point s) \<or> never_scheduled s"
        by (simp add: scheduler_inv_def)
      then show ?thesis
      proof
        assume "valid_iterator (acl_queue_handlers s) (starting_point s)"
        then have "valid_iterator (acl_queue_handlers s2) (starting_point s2)"
          using valid_iterator_keys [OF keys] by (simp add: s2)
        moreover from inv have "std_map_ok (acl_queue_handlers s2)"
          by (simp add: scheduler_inv_def std_map_ok_def s2)
        moreover from inv have "dequeue_needs_empty_fifo s2"
          by (simp add: scheduler_inv_def dequeue_needs_empty_fifo_def s2
              any_dequeue_registered_modify)
        ultimately show ?thesis by (simp add: scheduler_inv_def)
      next
        assume ns: "never_scheduled s"
        from r have "acl_queue_handlers s \<noteq> []" by auto
        with ns have z: "acl_packet_credits s = 0" "le_acl_packet_credits s = 0"
          "max_acl_packet_credits s = 0" "le_max_acl_packet_credits s = 0"
          by (auto simp: never_scheduled_def)
        with le have "n = 0" by (auto simp: s2 split: if_splits)
        then have "s2 = s" by (simp add: s2 std_map_modify_id)
        with inv show ?thesis by simp
      qed
    qed
    from res show ?thesis
    proof
      assume "s' = s2"
      with inv2 show ?thesis by simp
    next
      assume "StartRoundRobin s2 = Inr s'"
      with inv2 show ?thesis by (rule StartRoundRobin_inv)
    qed
  qed
qed

lemma fire_inv:
  assumes inv: "scheduler_inv s" and en: "enabled e s" and run: "fire e s = Inr s'"
  shows "scheduler_inv s'"
proof (cases e)
  case (DoRegister ct h q)
  with run have "Register ct h q s = Inr s'" by simp
  with inv show ?thesis by (rule Register_inv)
next
  case (DoUnregister h)
  with run have "Unregister h s = Inr s'" by simp
  with inv show ?thesis by (rule Unregister_inv)
next
  case (DoSetDisconnect h)
  with run have "SetDisconnect h s = Inr s'" by simp
  with inv show ?thesis by (rule SetDisconnect_inv)
next
  case (DoBufferPacket h p)
  with run have "BufferPacket h (Some p) s = Inr s'" by simp
  with inv en [unfolded DoBufferPacket] show ?thesis by (rule BufferPacket_inv)
next
  case DoHandleEnqueueNextFragment
  with run obtain pkt where h: "HandleEnqueueNextFragment s = Inr (pkt, s')"
    by (cases "HandleEnqueueNextFragment s") auto
  from en DoHandleEnqueueNextFragment have "enqueue_registered s" by simp
  from inv this h show ?thesis by (rule HandleEnqueueNextFragment_inv)
next
  case (DoIncomingAclCredits h n)
  with run have "IncomingAclCredits h n s = Inr s'" by simp
  with inv show ?thesis by (rule IncomingAclCredits_inv)
next
  case DoStartRoundRobin
  let ?s0 = "s\<lparr>posted_start_round_robin := posted_start_round_robin s - 1\<rparr>"
  from en DoStartRoundRobin have "\<not> never_scheduled s" by (simp add: never_scheduled_def)
  with inv have "scheduler_inv ?s0"
    by (simp add: scheduler_inv_def dequeue_needs_empty_fifo_def)
  moreover from run DoStartRoundRobin have "StartRoundRobin ?s0 = Inr s'" by simp
  ultimately show ?thesis by (rule StartRoundRobin_inv)
qed

lemma run_inv: "scheduler_inv s \<Longrightarrow> run es s = Some (Inr s') \<Longrightarrow> scheduler_inv s'"
proof (induction es arbitrary: s)
  case Nil
  then show ?case by simp
next
  case (Cons e es)
  from Cons.prems(2) have en: "enabled e s" by (auto split: if_splits)
  with Cons.prems(2) obtain s1 where f: "fire e s = Inr s1" and r: "run es s1 = Some (Inr s')"
    by (cases "fire e s") auto
  from fire_inv [OF Cons.prems(1) en f] r show ?case by (rule Cons.IH)
qed

subsection \<open>A registration pass\<close>

lemma position_begin: "m \<noteq> [] \<Longrightarrow> position m (std_map_begin m) = 0"
  by (cases m) (simp_all add: position_def std_map_begin_def)

lemma std_map_begin_At: "m \<noteq> [] \<Longrightarrow> \<exists>k. std_map_begin m = At k \<and> k \<in> set (map fst m)"
  by (cases m) (simp_all add: std_map_begin_def)

lemma StartRoundRobin_pass:
  assumes ne: "acl_queue_handlers s \<noteq> []"
    and ok: "std_map_ok (acl_queue_handlers s)"
    and vi: "valid_iterator (acl_queue_handlers s) (starting_point s)"
    and cr: "acl_packet_credits s \<noteq> 0 \<or> le_acl_packet_credits s \<noteq> 0"
    and fifo: "fragments_to_send s = []"
  shows "\<exists>s'. StartRoundRobin s = Inr s' \<and>
           map fst (acl_queue_handlers s') = map fst (acl_queue_handlers s) \<and>
           cursor_position s' = Suc (position (acl_queue_handlers s) (pass_start s))"
proof -
  let ?m = "acl_queue_handlers s"
  let ?sp = "pass_start s"
  from vi have ns: "starting_point s \<noteq> Singular" by (auto simp: valid_iterator_def)
  have "\<exists>k. ?sp = At k \<and> k \<in> set (map fst ?m)"
  proof (cases "length ?m = 1 \<or> starting_point s = End")
    case True
    with std_map_begin_At [OF ne] show ?thesis by (simp add: pass_start_def)
  next
    case False
    with vi ns show ?thesis
      by (cases "starting_point s") (auto simp: pass_start_def valid_iterator_def)
  qed
  then obtain k where sp: "?sp = At k" and k: "k \<in> set (map fst ?m)" by blast
  from round_robin_loop_returns [OF k] obtain m' where
    loop: "round_robin_loop (length ?m) (At k) ?m = Inr m'" by blast
  from round_robin_loop_keys [OF loop] have keys: "map fst m' = map fst ?m" .
  from std_next_At_valid [OF k] obtain sp' where nx: "std_next ?m (At k) = Inr sp'" by blast
  with std_next_cong [OF keys] have nx': "std_next m' (At k) = Inr sp'" by simp
  from std_next_position [OF std_map_ok_distinct [OF ok] k nx]
  have pos: "position ?m sp' = Suc (position ?m (At k))" .
  from cr have nz: "\<not> (acl_packet_credits s = 0 \<and> le_acl_packet_credits s = 0)" by blast
  have res: "StartRoundRobin s = Inr (s\<lparr>acl_queue_handlers := m', starting_point := sp'\<rparr>)"
    using nz fifo ns loop nx' sp
    by (auto simp: StartRoundRobin_def pass_start_def Let_def simp del: round_robin_loop.simps)
  have "cursor_position (s\<lparr>acl_queue_handlers := m', starting_point := sp'\<rparr>) =
      Suc (position ?m ?sp)"
    using pos position_cong [OF keys] sp by (simp add: cursor_position_def)
  with res keys show ?thesis by simp
qed

lemma reachable_pass_cursor:
  assumes inv: "scheduler_inv s"
    and ne: "acl_queue_handlers s \<noteq> []"
    and cr: "acl_packet_credits s \<noteq> 0 \<or> le_acl_packet_credits s \<noteq> 0"
  shows "valid_iterator (acl_queue_handlers s) (starting_point s)"
proof -
  from ne cr have "\<not> never_scheduled s" by (auto simp: never_scheduled_def)
  with inv show ?thesis by (simp add: scheduler_inv_def)
qed

subsection \<open>Outstanding counts\<close>

lemma sent_of_kind_UnregisterAll [simp]:
  "sent_of_kind K (UnregisterAllConnections m) = sent_of_kind K m"
  by (induction m) (auto simp: sent_of_kind_def UnregisterAllConnections_eq)

lemma sent_of_kind_flags_only:
  "UnregisterAllConnections m' = UnregisterAllConnections m \<Longrightarrow>
   sent_of_kind K m' = sent_of_kind K m"
  by (metis sent_of_kind_UnregisterAll)

lemma sent_of_kind_insert:
  "number_of_sent_packets v = 0 \<Longrightarrow>
   sum_list (sent_of_kind K (std_map_insert h v m)) = sum_list (sent_of_kind K m)"
  by (induction m) (auto simp: sent_of_kind_def)

lemma sent_of_kind_erase:
  "distinct (map fst m) \<Longrightarrow> map_of m h = Some r \<Longrightarrow>
   sum_list (sent_of_kind K (std_map_erase h m)) +
     (if connection_type r = K then number_of_sent_packets r else 0) =
   sum_list (sent_of_kind K m)"
proof (induction m)
  case Nil
  then show ?case by simp
next
  case (Cons a m)
  show ?case
  proof (cases "fst a = h")
    case True
    with Cons.prems have "snd a = r" by (cases a) simp
    moreover from True Cons.prems(1) have "h \<notin> set (map fst m)" by simp
    then have "std_map_erase h m = m"
      by (induction m) (auto simp: std_map_erase_def)
    ultimately show ?thesis using True by (simp add: sent_of_kind_def std_map_erase_def)
  next
    case False
    with Cons.prems have "map_of m h = Some r" "distinct (map fst m)" by (cases a; simp)+
    from Cons.IH [OF this(2,1)] False show ?thesis
      by (auto simp: sent_of_kind_def std_map_erase_def split: if_splits)
  qed
qed

lemma sent_of_kind_modify:
  "distinct (map fst m) \<Longrightarrow> map_of m h = Some r \<Longrightarrow>
   connection_type (f r) = connection_type r \<Longrightarrow>
   sum_list (sent_of_kind K (std_map_modify h f m)) +
     (if connection_type r = K then number_of_sent_packets r else 0) =
   sum_list (sent_of_kind K m) +
     (if connection_type r = K then number_of_sent_packets (f r) else 0)"
proof (induction m)
  case Nil
  then show ?case by simp
next
  case (Cons a m)
  show ?case
  proof (cases "fst a = h")
    case True
    with Cons.prems have a: "snd a = r" by (cases a) simp
    from True Cons.prems(1) have "h \<notin> set (map fst m)" by simp
    then have "std_map_modify h f m = m"
      by (induction m) (auto simp: std_map_modify_def)
    with a True Cons.prems(3) show ?thesis
      by (simp add: sent_of_kind_def std_map_modify_def)
  next
    case False
    with Cons.prems have "map_of m h = Some r" "distinct (map fst m)" by (cases a; simp)+
    from Cons.IH [OF this(2,1) Cons.prems(3)] False show ?thesis
      by (auto simp: sent_of_kind_def std_map_modify_def split: if_splits)
  qed
qed

lemma map_of_UnregisterAll:
  "map_of (UnregisterAllConnections m) h =
     map_option (\<lambda>r. r\<lparr>dequeue_is_registered := False\<rparr>) (map_of m h)"
  by (induction m) (auto simp: UnregisterAllConnections_eq)

lemma packet_fragments_kind:
  "filter (\<lambda>f. fst f = K) (packet_fragments ct h mtu p) =
     (if ct = K then packet_fragments ct h mtu p else [])"
proof -
  have "map fst (packet_fragments ct h mtu p) =
      replicate (length (packet_fragments ct h mtu p)) ct"
    by (simp add: packet_fragments_def push_fragments_fst length_push_fragments)
  then have "\<forall>f \<in> set (packet_fragments ct h mtu p). fst f = ct"
    by (metis (no_types, lifting) in_set_replicate list.set_map imageI)
  then show ?thesis by (auto simp: filter_empty_conv filter_id_conv)
qed

subsection \<open>The credit balance\<close>

lemma balance_new: "credit_balance K (RoundRobinScheduler_new a b c d)"
  by (simp add: credit_balance_def RoundRobinScheduler_new_def credits_available_def
      credits_max_def sent_of_kind_def queued_def)

lemma balance_StartRoundRobin:
  assumes "credit_balance K s" and run: "StartRoundRobin s = Inr s'"
  shows "credit_balance K s'"
proof -
  note fr = StartRoundRobin_frame [OF run]
  from sent_of_kind_flags_only [OF fr(9)]
  have "sent_of_kind K (acl_queue_handlers s') = sent_of_kind K (acl_queue_handlers s)" .
  with assms(1) fr(1-5) show ?thesis
    by (cases K) (simp_all add: credit_balance_def credits_available_def credits_max_def queued_def)
qed

lemma balance_Register:
  assumes bal: "credit_balance K s" and run: "Register ct h q s = Inr s'"
  shows "credit_balance K s'"
proof -
  let ?r0 = "\<lparr> connection_type = ct, queue_down_end = q, dequeue_is_registered = False,
               number_of_sent_packets = 0, is_disconnected = False \<rparr>"
  let ?s1 = "s\<lparr>acl_queue_handlers := std_map_insert h ?r0 (acl_queue_handlers s)\<rparr>"
  from bal have b1: "credit_balance K ?s1"
    by (cases K) (simp_all add: credit_balance_def credits_available_def credits_max_def
        queued_def sent_of_kind_insert)
  from run have "(if fragments_to_send s = [] then StartRoundRobin ?s1 else Inr ?s1) = Inr s'"
    by (simp add: Register_def Let_def)
  then have "s' = ?s1 \<or> StartRoundRobin ?s1 = Inr s'" by (auto split: if_splits)
  then show ?thesis
  proof
    assume "s' = ?s1"
    with b1 show ?thesis by simp
  next
    assume "StartRoundRobin ?s1 = Inr s'"
    with b1 show ?thesis by (rule balance_StartRoundRobin)
  qed
qed

lemma balance_Unregister:
  assumes bal: "credit_balance K s" and ok: "std_map_ok (acl_queue_handlers s)"
    and free: "reclaim_free (DoUnregister h) s" and run: "Unregister h s = Inr s'"
  shows "credit_balance K s'"
proof -
  from run obtain r where r: "map_of (acl_queue_handlers s) h = Some r"
    by (cases "map_of (acl_queue_handlers s) h") (auto simp: Unregister_def)
  with run have s': "s' = s\<lparr>acl_queue_handlers := std_map_erase h (acl_queue_handlers s),
      starting_point := std_map_begin (std_map_erase h (acl_queue_handlers s))\<rparr>"
    by (simp add: Unregister_def Let_def)
  from free r have z: "number_of_sent_packets r = 0" by simp
  from sent_of_kind_erase [OF std_map_ok_distinct [OF ok] r, of K] z
  have "sum_list (sent_of_kind K (std_map_erase h (acl_queue_handlers s))) =
      sum_list (sent_of_kind K (acl_queue_handlers s))" by (simp split: if_splits)
  with bal show ?thesis
    by (cases K) (simp_all add: s' credit_balance_def credits_available_def credits_max_def
        queued_def)
qed

lemma balance_SetDisconnect:
  assumes bal: "credit_balance K s"
    and free: "reclaim_free (DoSetDisconnect h) s" and run: "SetDisconnect h s = Inr s'"
  shows "credit_balance K s'"
proof -
  from run obtain r where r: "map_of (acl_queue_handlers s) h = Some r"
    by (cases "map_of (acl_queue_handlers s) h") (auto simp: SetDisconnect_def)
  from free r have z: "number_of_sent_packets r = 0" by simp
  with run r have "s' = s" by (auto simp: SetDisconnect_def Let_def)
  with bal show ?thesis by simp
qed

lemma balance_BufferPacket:
  assumes bal: "credit_balance K s" and inv: "scheduler_inv s"
    and en: "enabled (DoBufferPacket h p) s" and run: "BufferPacket h (Some p) s = Inr s'"
  shows "credit_balance K s'"
proof -
  let ?m = "acl_queue_handlers s"
  from en have "any_dequeue_registered ?m"
    by (auto split: option.splits dest: map_of_flag_any)
  with inv have fifo: "fragments_to_send s = []"
    by (simp add: scheduler_inv_def dequeue_needs_empty_fifo_def)
  from inv have dist: "distinct (map fst (UnregisterAllConnections ?m))"
    by (simp add: scheduler_inv_def std_map_ok_distinct)
  from BufferPacket_result [OF run] obtain r where r: "map_of ?m h = Some r"
    and s': "s' = s\<lparr>fragments_to_send :=
              fragments_to_send s @
                packet_fragments (connection_type r) h
                  (if connection_type r = CLASSIC then hci_mtu s else le_hci_mtu s) p,
            acl_queue_handlers :=
              std_map_modify h
                (\<lambda>r'. r'\<lparr>number_of_sent_packets :=
                          number_of_sent_packets r' +
                          of_nat (length (fragments_to_send s @
                            packet_fragments (connection_type r) h
                              (if connection_type r = CLASSIC then hci_mtu s else le_hci_mtu s) p))\<rparr>)
                (UnregisterAllConnections ?m),
            enqueue_registered := True\<rparr>" by blast
  let ?new = "packet_fragments (connection_type r) h
                  (if connection_type r = CLASSIC then hci_mtu s else le_hci_mtu s) p"
  let ?f = "\<lambda>r'. r'\<lparr>number_of_sent_packets := number_of_sent_packets r' + of_nat (length ?new)\<rparr>"
  let ?r1 = "r\<lparr>dequeue_is_registered := False\<rparr>"
  from r have r1: "map_of (UnregisterAllConnections ?m) h = Some ?r1"
    by (simp add: map_of_UnregisterAll)
  have "connection_type (?f ?r1) = connection_type ?r1" by simp
  from sent_of_kind_modify [of "UnregisterAllConnections ?m" h ?r1 ?f K, OF dist r1 this]
  have sum: "sum_list (sent_of_kind K (std_map_modify h ?f (UnregisterAllConnections ?m))) =
      sum_list (sent_of_kind K ?m) + (if connection_type r = K then of_nat (length ?new) else 0)"
    by (cases "connection_type r = K") (simp_all add: algebra_simps)
  have q: "queued K s' = (if connection_type r = K then length ?new else 0)"
    by (simp add: s' fifo queued_def packet_fragments_kind)
  from fifo have q0: "queued K s = 0" by (simp add: queued_def)
  have h': "acl_queue_handlers s' = std_map_modify h ?f (UnregisterAllConnections ?m)"
    by (simp add: s' fifo)
  from bal q0 show ?thesis
    unfolding credit_balance_def h' sum q
    by (cases K) (simp_all add: s' credits_available_def credits_max_def)
qed

lemma balance_HandleEnqueueNextFragment:
  assumes bal: "credit_balance K s" and run: "HandleEnqueueNextFragment s = Inr (pkt, s')"
  shows "credit_balance K s'"
proof -
  from HandleEnqueueNextFragment_result [OF run] obtain front rest e where
    fifo: "fragments_to_send s = front # rest"
    and s': "s' = s\<lparr>acl_packet_credits :=
              (if fst front = CLASSIC then acl_packet_credits s - 1 else acl_packet_credits s),
            le_acl_packet_credits :=
              (if fst front = CLASSIC then le_acl_packet_credits s
               else le_acl_packet_credits s - 1),
            fragments_to_send := rest, enqueue_registered := e,
            posted_start_round_robin :=
              (if rest = [] then posted_start_round_robin s + 1
               else posted_start_round_robin s)\<rparr>" by blast
  have q: "queued K s = queued K s' + (if fst front = K then 1 else 0)"
    by (simp add: s' fifo queued_def)
  have c: "credits_available K s = credits_available K s' + (if fst front = K then 1 else 0)"
    by (cases K; cases "fst front") (simp_all add: s' credits_available_def)
  have "credits_max K s' = credits_max K s" "acl_queue_handlers s' = acl_queue_handlers s"
    by (simp_all add: s' credits_max_def)
  with bal show ?thesis
    unfolding credit_balance_def q c by (simp split: if_splits)
qed

lemma balance_IncomingAclCredits:
  assumes bal: "credit_balance K s" and ok: "std_map_ok (acl_queue_handlers s)"
    and run: "IncomingAclCredits h n s = Inr s'"
  shows "credit_balance K s'"
proof -
  from IncomingAclCredits_result [OF run] show ?thesis
  proof
    assume "s' = s"
    with bal show ?thesis by simp
  next
    assume "\<exists>r s2. map_of (acl_queue_handlers s) h = Some r \<and> \<not> is_disconnected r \<and>
       s2 = s\<lparr>acl_queue_handlers :=
                 std_map_modify h
                   (\<lambda>r. r\<lparr>number_of_sent_packets := number_of_sent_packets r - n\<rparr>)
                   (acl_queue_handlers s),
               acl_packet_credits :=
                 (if connection_type r = CLASSIC then acl_packet_credits s + n
                  else acl_packet_credits s),
               le_acl_packet_credits :=
                 (if connection_type r = CLASSIC then le_acl_packet_credits s
                  else le_acl_packet_credits s + n)\<rparr> \<and>
       acl_packet_credits s2 \<le> max_acl_packet_credits s \<and>
       le_acl_packet_credits s2 \<le> le_max_acl_packet_credits s \<and>
       (s' = s2 \<or> StartRoundRobin s2 = Inr s')"
    then obtain r s2 where r: "map_of (acl_queue_handlers s) h = Some r"
      and s2: "s2 = s\<lparr>acl_queue_handlers :=
                 std_map_modify h
                   (\<lambda>r. r\<lparr>number_of_sent_packets := number_of_sent_packets r - n\<rparr>)
                   (acl_queue_handlers s),
               acl_packet_credits :=
                 (if connection_type r = CLASSIC then acl_packet_credits s + n
                  else acl_packet_credits s),
               le_acl_packet_credits :=
                 (if connection_type r = CLASSIC then le_acl_packet_credits s
                  else le_acl_packet_credits s + n)\<rparr>"
      and res: "s' = s2 \<or> StartRoundRobin s2 = Inr s'" by blast
    let ?f = "\<lambda>r. r\<lparr>number_of_sent_packets := number_of_sent_packets r - n\<rparr>"
    have "connection_type (?f r) = connection_type r" by simp
    from sent_of_kind_modify [of "acl_queue_handlers s" h r ?f K,
        OF std_map_ok_distinct [OF ok] r this]
    have sum: "sum_list (sent_of_kind K (std_map_modify h ?f (acl_queue_handlers s))) +
        (if connection_type r = K then n else 0) = sum_list (sent_of_kind K (acl_queue_handlers s))"
      by (cases "connection_type r = K") (simp_all add: algebra_simps)
    have c: "credits_available K s2 =
        credits_available K s + (if connection_type r = K then n else 0)"
      by (cases K; cases "connection_type r") (simp_all add: s2 credits_available_def)
    have h2: "acl_queue_handlers s2 = std_map_modify h ?f (acl_queue_handlers s)"
      and "credits_max K s2 = credits_max K s" "queued K s2 = queued K s"
      by (simp_all add: s2 credits_max_def queued_def)
    with bal sum have b2: "credit_balance K s2"
      unfolding credit_balance_def c h2
      by (simp add: algebra_simps split: if_splits)
    from res show ?thesis
    proof
      assume "s' = s2"
      with b2 show ?thesis by simp
    next
      assume "StartRoundRobin s2 = Inr s'"
      with b2 show ?thesis by (rule balance_StartRoundRobin)
    qed
  qed
qed

lemma balance_fire:
  assumes bal: "credit_balance K s" and inv: "scheduler_inv s" and en: "enabled e s"
    and free: "reclaim_free e s" and run: "fire e s = Inr s'"
  shows "credit_balance K s'"
proof (cases e)
  case (DoRegister ct h q)
  with run have "Register ct h q s = Inr s'" by simp
  with bal show ?thesis by (rule balance_Register)
next
  case (DoUnregister h)
  with run have "Unregister h s = Inr s'" by simp
  moreover from inv have "std_map_ok (acl_queue_handlers s)" by (simp add: scheduler_inv_def)
  ultimately show ?thesis using bal free [unfolded DoUnregister]
    by (intro balance_Unregister [of K s h s'])
next
  case (DoSetDisconnect h)
  with run have "SetDisconnect h s = Inr s'" by simp
  with bal free [unfolded DoSetDisconnect] show ?thesis by (rule balance_SetDisconnect)
next
  case (DoBufferPacket h p)
  with run have "BufferPacket h (Some p) s = Inr s'" by simp
  with bal inv en [unfolded DoBufferPacket] show ?thesis by (rule balance_BufferPacket)
next
  case DoHandleEnqueueNextFragment
  with run obtain pkt where "HandleEnqueueNextFragment s = Inr (pkt, s')"
    by (cases "HandleEnqueueNextFragment s") auto
  with bal show ?thesis by (rule balance_HandleEnqueueNextFragment)
next
  case (DoIncomingAclCredits h n)
  with run have "IncomingAclCredits h n s = Inr s'" by simp
  moreover from inv have "std_map_ok (acl_queue_handlers s)" by (simp add: scheduler_inv_def)
  ultimately show ?thesis using bal by (intro balance_IncomingAclCredits [of K s h n s'])
next
  case DoStartRoundRobin
  let ?s0 = "s\<lparr>posted_start_round_robin := posted_start_round_robin s - 1\<rparr>"
  from bal have "credit_balance K ?s0"
    by (cases K) (simp_all add: credit_balance_def credits_available_def credits_max_def
        queued_def)
  moreover from run DoStartRoundRobin have "StartRoundRobin ?s0 = Inr s'" by simp
  ultimately show ?thesis by (rule balance_StartRoundRobin)
qed

lemma balance_run:
  "credit_balance K s \<Longrightarrow> scheduler_inv s \<Longrightarrow> run es s = Some (Inr s') \<Longrightarrow>
   run_reclaim_free es s \<Longrightarrow> credit_balance K s'"
proof (induction es arbitrary: s)
  case Nil
  then show ?case by simp
next
  case (Cons e es)
  from Cons.prems(3) have en: "enabled e s" by (auto split: if_splits)
  with Cons.prems(3) obtain s1 where f: "fire e s = Inr s1" and r: "run es s1 = Some (Inr s')"
    by (cases "fire e s") auto
  from Cons.prems(4) f have free: "reclaim_free e s" and rest: "run_reclaim_free es s1"
    by simp_all
  from balance_fire [OF Cons.prems(1,2) en free f] fire_inv [OF Cons.prems(2) en f] r rest
  show ?case by (rule Cons.IH)
qed

subsection \<open>SetDisconnect\<close>

text \<open>
  C3. For a registered handle, \<open>SetDisconnect\<close> returns normally and adds the
  connection's outstanding-fragment count to the credit pool of the connection's kind
  (16-bit addition), leaving the other pool as it was. In the scenario with classic
  maximum 2 and both credits consumed, the classic pool becomes 1.
\<close>

theorem SetDisconnect_reclaims:
  assumes "map_of (acl_queue_handlers s) h = Some r"
  shows "\<exists>s'. SetDisconnect h s = Inr s' \<and>
           acl_packet_credits s' =
             acl_packet_credits s +
               (if connection_type r = CLASSIC then number_of_sent_packets r else 0) \<and>
           le_acl_packet_credits s' =
             le_acl_packet_credits s +
               (if connection_type r = CLASSIC then 0 else number_of_sent_packets r)"
  using assms by (simp add: SetDisconnect_def Let_def)

theorem SetDisconnect_reclaims_witness:
  "run [DoRegister CLASSIC 64 0, DoRegister CLASSIC 65 1,
        DoBufferPacket 64 [0], DoHandleEnqueueNextFragment, DoStartRoundRobin,
        DoBufferPacket 65 [1], DoHandleEnqueueNextFragment, DoStartRoundRobin]
       (RoundRobinScheduler_new 2 27 0 27) = Some (Inr both_credits_consumed) \<and>
   (\<exists>s'. SetDisconnect 64 both_credits_consumed = Inr s' \<and>
         acl_packet_credits s' = 1 \<and> le_acl_packet_credits s' = 0)"
proof -
  have r: "map_of (acl_queue_handlers both_credits_consumed) 64 =
      Some \<lparr> connection_type = CLASSIC, queue_down_end = 0, dequeue_is_registered = False,
             number_of_sent_packets = 1, is_disconnected = False \<rparr>"
    by (simp add: both_credits_consumed_def)
  have "run [DoRegister CLASSIC 64 0, DoRegister CLASSIC 65 1,
        DoBufferPacket 64 [0], DoHandleEnqueueNextFragment, DoStartRoundRobin,
        DoBufferPacket 65 [1], DoHandleEnqueueNextFragment, DoStartRoundRobin]
       (RoundRobinScheduler_new 2 27 0 27) = Some (Inr both_credits_consumed)"
    by code_simp
  moreover have "\<exists>s'. SetDisconnect 64 both_credits_consumed = Inr s' \<and>
         acl_packet_credits s' = 1 \<and> le_acl_packet_credits s' = 0"
    using SetDisconnect_reclaims [OF r] by (simp add: both_credits_consumed_def)
  ultimately show ?thesis by simp
qed

text \<open>
  C9. On a scheduler with no connection, \<open>SetDisconnect\<close> of handle 64 does not stop on
  an assertion: it dereferences the past-the-end iterator that \<^verbatim>\<open>find\<close> returns.
  \<open>Unregister\<close> of the same handle does stop on its assertion.
\<close>

theorem SetDisconnect_unknown_handle_unchecked:
  "SetDisconnect 64 (RoundRobinScheduler_new 2 27 0 27) = Inl UndefinedBehaviour \<and>
   Unregister 64 (RoundRobinScheduler_new 2 27 0 27) = Inl AssertionFailure"
  by code_simp

text \<open>
  C2. In the scenario with both classic credits consumed, \<open>SetDisconnect\<close> of handle 64
  leaves the record of the connection as it was (not marked disconnected, outstanding
  count still 1), and the credit that the controller then returns for handle 64 is not
  discarded: the classic pool goes from 1 to 2 and the outstanding count from 1 to 0.
\<close>

theorem credits_after_SetDisconnect_not_discarded:
  "run [DoRegister CLASSIC 64 0, DoRegister CLASSIC 65 1,
        DoBufferPacket 64 [0], DoHandleEnqueueNextFragment, DoStartRoundRobin,
        DoBufferPacket 65 [1], DoHandleEnqueueNextFragment, DoStartRoundRobin]
       (RoundRobinScheduler_new 2 27 0 27) = Some (Inr both_credits_consumed) \<and>
   SetDisconnect 64 both_credits_consumed =
     Inr (both_credits_consumed\<lparr>acl_packet_credits := 1\<rparr>) \<and>
   IncomingAclCredits 64 1 (both_credits_consumed\<lparr>acl_packet_credits := 1\<rparr>) =
     Inr (both_credits_consumed
            \<lparr>acl_packet_credits := 2,
             acl_queue_handlers :=
               [(64, \<lparr> connection_type = CLASSIC, queue_down_end = 0,
                      dequeue_is_registered = False, number_of_sent_packets = 0,
                      is_disconnected = False \<rparr>),
                (65, \<lparr> connection_type = CLASSIC, queue_down_end = 1,
                      dequeue_is_registered = False, number_of_sent_packets = 1,
                      is_disconnected = False \<rparr>)]\<rparr>)"
  by code_simp

subsection \<open>Credits at dispatch\<close>

text \<open>
  C4. With one classic and one LE credit, a classic connection that delivers two payloads
  reaches a state in which the enqueue callback is registered, the front fragment is
  classic and the classic pool is 0; the next \<open>HandleEnqueueNextFragment\<close> stops on the
  credit assertion.
\<close>

theorem credit_assertion_fires:
  "run [DoRegister CLASSIC 64 0, DoBufferPacket 64 [0], DoHandleEnqueueNextFragment,
        DoStartRoundRobin, DoBufferPacket 64 [1]] (RoundRobinScheduler_new 1 27 1 27) =
     Some (Inr
       \<lparr> acl_queue_handlers =
           [(64, \<lparr> connection_type = CLASSIC, queue_down_end = 0,
                  dequeue_is_registered = False, number_of_sent_packets = 2,
                  is_disconnected = False \<rparr>)],
         fragments_to_send =
           [(CLASSIC, \<lparr> acl_handle = 64, packet_boundary_flag = FIRST_AUTOMATICALLY_FLUSHABLE,
                        broadcast_flag = POINT_TO_POINT, acl_payload = [1] \<rparr>)],
         max_acl_packet_credits = 1, acl_packet_credits = 0,
         le_max_acl_packet_credits = 1, le_acl_packet_credits = 1,
         hci_mtu = 27, le_hci_mtu = 27,
         enqueue_registered = True, starting_point = End, posted_start_round_robin = 0 \<rparr>) \<and>
   run [DoRegister CLASSIC 64 0, DoBufferPacket 64 [0], DoHandleEnqueueNextFragment,
        DoStartRoundRobin, DoBufferPacket 64 [1], DoHandleEnqueueNextFragment]
       (RoundRobinScheduler_new 1 27 1 27) = Some (Inl AssertionFailure)"
  by code_simp

section \<open>The claims about the scheduler\<close>

subsection \<open>Credit accounting\<close>

text \<open>
  C1, as stated, fails. With classic maximum 2, a classic connection whose first payload
  was queued has outstanding count 1 while both credits are still available, so available
  plus outstanding is 3; after the fragment is dispatched the equation holds, and
  \<open>Unregister\<close> of the connection breaks it again (no credit comes back); and a report of
  2 completed packets for a connection with 1 outstanding wraps its count to 65535.
\<close>

theorem credit_equation_counterexample:
  "run [DoRegister CLASSIC 64 0, DoBufferPacket 64 [0]] (RoundRobinScheduler_new 2 27 0 27) =
     Some (Inr one_fragment_queued) \<and>
   \<not> credit_equation CLASSIC one_fragment_queued \<and>
   run [DoHandleEnqueueNextFragment, DoStartRoundRobin] one_fragment_queued =
     Some (Inr one_fragment_sent) \<and>
   credit_equation CLASSIC one_fragment_sent \<and>
   Unregister 64 one_fragment_sent =
     Inr (one_fragment_sent\<lparr>acl_queue_handlers := [], starting_point := End\<rparr>) \<and>
   \<not> credit_equation CLASSIC
       (one_fragment_sent\<lparr>acl_queue_handlers := [], starting_point := End\<rparr>) \<and>
   run [DoRegister CLASSIC 64 0, DoRegister CLASSIC 65 1,
        DoBufferPacket 64 [0], DoHandleEnqueueNextFragment, DoStartRoundRobin,
        DoBufferPacket 65 [1], DoHandleEnqueueNextFragment, DoStartRoundRobin,
        DoIncomingAclCredits 64 2]
       (RoundRobinScheduler_new 2 27 0 27) = Some (Inr excess_credits_returned) \<and>
   \<not> credit_equation CLASSIC excess_credits_returned"
proof -
  have "run [DoRegister CLASSIC 64 0, DoBufferPacket 64 [0]] (RoundRobinScheduler_new 2 27 0 27) =
     Some (Inr one_fragment_queued)"
    by code_simp
  moreover have "\<not> credit_equation CLASSIC one_fragment_queued"
    by (simp add: credit_equation_def one_fragment_queued_def credits_available_def
        credits_max_def sent_of_kind_def)
  moreover have "run [DoHandleEnqueueNextFragment, DoStartRoundRobin] one_fragment_queued =
     Some (Inr one_fragment_sent)"
    by code_simp
  moreover have "credit_equation CLASSIC one_fragment_sent"
    by (simp add: credit_equation_def one_fragment_sent_def credits_available_def
        credits_max_def sent_of_kind_def)
  moreover have "Unregister 64 one_fragment_sent =
     Inr (one_fragment_sent\<lparr>acl_queue_handlers := [], starting_point := End\<rparr>)"
    by code_simp
  moreover have "\<not> credit_equation CLASSIC
       (one_fragment_sent\<lparr>acl_queue_handlers := [], starting_point := End\<rparr>)"
    by (simp add: credit_equation_def one_fragment_sent_def credits_available_def
        credits_max_def sent_of_kind_def)
  moreover have "run [DoRegister CLASSIC 64 0, DoRegister CLASSIC 65 1,
        DoBufferPacket 64 [0], DoHandleEnqueueNextFragment, DoStartRoundRobin,
        DoBufferPacket 65 [1], DoHandleEnqueueNextFragment, DoStartRoundRobin,
        DoIncomingAclCredits 64 2]
       (RoundRobinScheduler_new 2 27 0 27) = Some (Inr excess_credits_returned)"
    by code_simp
  moreover have "\<not> credit_equation CLASSIC excess_credits_returned"
    by (simp add: credit_equation_def excess_credits_returned_def credits_available_def
        credits_max_def sent_of_kind_def)
  ultimately show ?thesis by blast
qed

text \<open>
  C1, amended. In every state that a run reaches from a new scheduler, for each kind:
  available credits plus the sum of the outstanding counts of the connections of that
  kind equals the maximum plus the number of fragments of that kind still in the FIFO,
  in 16-bit arithmetic. This covers \<open>Register\<close>, \<open>BufferPacket\<close>,
  \<open>HandleEnqueueNextFragment\<close>, \<open>IncomingAclCredits\<close> and the posted registration
  pass, and \<open>Unregister\<close> and \<open>SetDisconnect\<close> of a connection with no outstanding
  fragment.
\<close>

theorem credit_balance_preserved:
  assumes "run es (RoundRobinScheduler_new a b c d) = Some (Inr s)"
    and "run_reclaim_free es (RoundRobinScheduler_new a b c d)"
  shows "credit_balance K s"
  using balance_new new_inv assms by (rule balance_run)

theorem credit_balance_preserved_witness:
  "run [DoRegister CLASSIC 64 0, DoBufferPacket 64 [0]] (RoundRobinScheduler_new 2 27 0 27) =
     Some (Inr one_fragment_queued) \<and>
   run_reclaim_free [DoRegister CLASSIC 64 0, DoBufferPacket 64 [0]]
     (RoundRobinScheduler_new 2 27 0 27) \<and>
   credit_balance CLASSIC one_fragment_queued \<and> credit_balance LE one_fragment_queued"
proof -
  have r: "run [DoRegister CLASSIC 64 0, DoBufferPacket 64 [0]] (RoundRobinScheduler_new 2 27 0 27) =
     Some (Inr one_fragment_queued)" by code_simp
  have f: "run_reclaim_free [DoRegister CLASSIC 64 0, DoBufferPacket 64 [0]]
     (RoundRobinScheduler_new 2 27 0 27)" by code_simp
  from credit_balance_preserved [OF r f] r f show ?thesis by blast
qed

subsection \<open>Dequeue registration\<close>

text \<open>
  The failure predicate is the negation of the property as the spec words it.
\<close>

lemma dequeue_without_own_credit_iff:
  "dequeue_without_own_credit s = (\<not> dequeue_needs_own_credit s)"
  by (auto simp: dequeue_without_own_credit_def dequeue_needs_own_credit_def
      list_ex_iff list_all_iff)

text \<open>
  The FIFO half of the property holds in every state that a run reaches from a new
  scheduler: if the dequeue of some connection is registered then the FIFO is empty.
\<close>

lemma reachable_dequeue_needs_empty_fifo:
  assumes "run es (RoundRobinScheduler_new a b c d) = Some (Inr s)"
  shows "dequeue_needs_empty_fifo s"
  using run_inv [OF new_inv assms] by (simp add: scheduler_inv_def)

text \<open>
  C5. The credit half of the property fails in a reachable state. With one classic and one
  LE credit, a classic connection delivers a payload and its fragment is dispatched, so
  the classic pool is 0 and the LE pool is 1. The posted \<open>StartRoundRobin\<close> then sets the
  dequeue-registered flag of the classic connection: its test is on the two pools
  together and its loop does not look at the kind of a connection. In the state reached
  the flag is set, the FIFO is empty and the classic pool is 0. Nothing else stands
  between a registered dequeue and the dispatch of the first fragment: when the
  connection delivers its next payload, \<open>BufferPacket\<close> queues a classic fragment and
  registers the enqueue callback, and \<open>HandleEnqueueNextFragment\<close> stops on the
  assertion that the classic pool is positive.
\<close>

theorem dequeue_registered_without_own_credit:
  "run [DoRegister CLASSIC 64 0, DoBufferPacket 64 [0], DoHandleEnqueueNextFragment]
       (RoundRobinScheduler_new 1 27 1 27) = Some (Inr classic_fragment_dispatched) \<and>
   enabled DoStartRoundRobin classic_fragment_dispatched \<and>
   fire DoStartRoundRobin classic_fragment_dispatched = Inr classic_pool_empty_le_pool_not \<and>
   map_of (acl_queue_handlers classic_pool_empty_le_pool_not) 64 =
     Some \<lparr> connection_type = CLASSIC, queue_down_end = 0, dequeue_is_registered = True,
            number_of_sent_packets = 1, is_disconnected = False \<rparr> \<and>
   fragments_to_send classic_pool_empty_le_pool_not = [] \<and>
   credits_available CLASSIC classic_pool_empty_le_pool_not = 0 \<and>
   credits_available LE classic_pool_empty_le_pool_not = 1 \<and>
   dequeue_without_own_credit classic_pool_empty_le_pool_not \<and>
   run [DoBufferPacket 64 [1], DoHandleEnqueueNextFragment] classic_pool_empty_le_pool_not =
     Some (Inl AssertionFailure)"
proof -
  have "run [DoRegister CLASSIC 64 0, DoBufferPacket 64 [0], DoHandleEnqueueNextFragment]
       (RoundRobinScheduler_new 1 27 1 27) = Some (Inr classic_fragment_dispatched)"
    by code_simp
  moreover have "enabled DoStartRoundRobin classic_fragment_dispatched"
    by (simp add: classic_fragment_dispatched_def)
  moreover have "fire DoStartRoundRobin classic_fragment_dispatched =
      Inr classic_pool_empty_le_pool_not"
    by code_simp
  moreover have "map_of (acl_queue_handlers classic_pool_empty_le_pool_not) 64 =
     Some \<lparr> connection_type = CLASSIC, queue_down_end = 0, dequeue_is_registered = True,
            number_of_sent_packets = 1, is_disconnected = False \<rparr>"
    by (simp add: classic_pool_empty_le_pool_not_def)
  moreover have "fragments_to_send classic_pool_empty_le_pool_not = []"
    by (simp add: classic_pool_empty_le_pool_not_def)
  moreover have "credits_available CLASSIC classic_pool_empty_le_pool_not = 0"
    by (simp add: credits_available_def classic_pool_empty_le_pool_not_def)
  moreover have "credits_available LE classic_pool_empty_le_pool_not = 1"
    by (simp add: credits_available_def classic_pool_empty_le_pool_not_def)
  moreover have "dequeue_without_own_credit classic_pool_empty_le_pool_not"
    by (simp add: dequeue_without_own_credit_def credits_available_def
        classic_pool_empty_le_pool_not_def)
  moreover have "run [DoBufferPacket 64 [1], DoHandleEnqueueNextFragment]
      classic_pool_empty_le_pool_not = Some (Inl AssertionFailure)"
    by code_simp
  ultimately show ?thesis by blast
qed

subsection \<open>Fragmentation\<close>

text \<open>
  C6. For a registered connection and a positive MTU \<open>M\<close> of its kind, \<open>BufferPacket\<close>
  with a payload of length \<open>L\<close> returns normally and appends to the FIFO exactly
  \<open>(max 1 L + M - 1) div M\<close> fragments, that is the ceiling of \<open>max 1 L / M\<close>; their
  payloads concatenate to the payload, none is longer than \<open>M\<close>, the first carries
  \<open>FIRST_AUTOMATICALLY_FLUSHABLE\<close> and the others \<open>CONTINUING_FRAGMENT\<close>, and all carry
  the handle and kind of the connection. At \<open>L = 0\<close> this is one empty first fragment.
\<close>

theorem BufferPacket_fragments:
  assumes reg: "map_of (acl_queue_handlers s) h = Some r"
    and mtu: "mtu = (if connection_type r = CLASSIC then hci_mtu s else le_hci_mtu s)"
    and pos: "0 < mtu"
  shows "\<exists>s' frs. BufferPacket h (Some p) s = Inr s' \<and>
           fragments_to_send s' = fragments_to_send s @ frs \<and>
           length frs = (max 1 (length p) + mtu - 1) div mtu \<and>
           concat (map (\<lambda>f. acl_payload (snd f)) frs) = p \<and>
           map (\<lambda>f. packet_boundary_flag (snd f)) frs =
             FIRST_AUTOMATICALLY_FLUSHABLE # replicate (length frs - 1) CONTINUING_FRAGMENT \<and>
           map fst frs = replicate (length frs) (connection_type r) \<and>
           map (\<lambda>f. acl_handle (snd f)) frs = replicate (length frs) h \<and>
           list_all (\<lambda>f. length (acl_payload (snd f)) \<le> mtu) frs"
proof (cases "length p \<le> mtu")
  case True
  let ?frs = "[(connection_type r, Create h FIRST_AUTOMATICALLY_FLUSHABLE POINT_TO_POINT p)]"
  from True pos have "max 1 (length p) \<le> mtu" "0 < max 1 (length p)" by simp_all
  then have one: "(max (Suc 0) (length p) + mtu - Suc 0) div mtu = Suc 0"
    by (simp add: ceil_div_one)
  have "\<exists>s'. BufferPacket h (Some p) s = Inr s' \<and>
      fragments_to_send s' = fragments_to_send s @ ?frs"
    using reg mtu True by (simp add: BufferPacket_def Let_def SendNextFragment_def)
  then obtain s' where "BufferPacket h (Some p) s = Inr s'"
    "fragments_to_send s' = fragments_to_send s @ ?frs" by blast
  then show ?thesis using True
    by (intro exI [of _ s'] exI [of _ ?frs]) (simp add: one Create_def)
next
  case False
  let ?fs = "GetFragments mtu p"
  let ?frs = "push_fragments (connection_type r) h POINT_TO_POINT FIRST_AUTOMATICALLY_FLUSHABLE ?fs"
  from False have "max 1 (length p) = length p" by simp
  then have len: "length ?frs = (max 1 (length p) + mtu - 1) div mtu"
    using pos by (simp add: length_push_fragments length_GetFragments)
  from False have "0 < length p" by (cases p) simp_all
  with pos have ne: "0 < length ?fs" by (simp add: length_GetFragments ceil_div_pos)
  then have ne2: "0 < length ?frs" by (simp add: length_push_fragments)
  have run: "\<exists>s'. BufferPacket h (Some p) s = Inr s' \<and>
      fragments_to_send s' = fragments_to_send s @ ?frs"
    using reg mtu False ne2 by (simp add: BufferPacket_def Let_def SendNextFragment_def)
  have flags: "map (\<lambda>f. packet_boundary_flag (snd f)) ?frs =
      FIRST_AUTOMATICALLY_FLUSHABLE # replicate (length ?frs - 1) CONTINUING_FRAGMENT"
    using ne by (simp add: push_fragments_flags length_push_fragments)
  have sizes: "list_all (\<lambda>f. length (acl_payload (snd f)) \<le> mtu) ?frs"
  proof -
    have "list_all (\<lambda>x. length x \<le> mtu) (map (\<lambda>f. acl_payload (snd f)) ?frs)"
      unfolding push_fragments_payload using GetFragments_sizes [OF pos]
      by (auto simp: list_all_iff)
    then show ?thesis by (simp add: list_all_iff)
  qed
  from run obtain s' where "BufferPacket h (Some p) s = Inr s'"
    "fragments_to_send s' = fragments_to_send s @ ?frs" by blast
  with len flags sizes show ?thesis
    using concat_GetFragments [OF pos]
    by (intro exI [of _ s'] exI [of _ ?frs])
       (simp add: push_fragments_payload push_fragments_fst push_fragments_handle
          length_push_fragments)
qed

theorem BufferPacket_fragments_witness:
  "run [DoRegister CLASSIC 64 0] (RoundRobinScheduler_new 2 27 0 27) =
     Some (Inr one_classic_link) \<and>
   (\<exists>s' f. BufferPacket 64 (Some []) one_classic_link = Inr s' \<and>
      fragments_to_send s' = [f] \<and> acl_payload (snd f) = [] \<and>
      packet_boundary_flag (snd f) = FIRST_AUTOMATICALLY_FLUSHABLE \<and>
      fst f = CLASSIC \<and> acl_handle (snd f) = 64) \<and>
   map (\<lambda>f. (packet_boundary_flag f, length (acl_payload f)))
     (map snd (packet_fragments CLASSIC 64 27 (replicate 60 0))) =
     [(FIRST_AUTOMATICALLY_FLUSHABLE, 27), (CONTINUING_FRAGMENT, 27), (CONTINUING_FRAGMENT, 6)]"
proof -
  have r: "map_of (acl_queue_handlers one_classic_link) 64 =
      Some \<lparr> connection_type = CLASSIC, queue_down_end = 0, dequeue_is_registered = True,
             number_of_sent_packets = 0, is_disconnected = False \<rparr>"
    by (simp add: one_classic_link_def)
  have m: "(27::nat) = (if connection_type \<lparr> connection_type = CLASSIC, queue_down_end = 0,
      dequeue_is_registered = True, number_of_sent_packets = 0, is_disconnected = False \<rparr> = CLASSIC
      then hci_mtu one_classic_link else le_hci_mtu one_classic_link)"
    by (simp add: one_classic_link_def)
  have p: "0 < (27::nat)" by simp
  from BufferPacket_fragments [OF r m p, of "[]"] obtain s' frs where
    b: "BufferPacket 64 (Some []) one_classic_link = Inr s'"
    and f: "fragments_to_send s' = fragments_to_send one_classic_link @ frs"
    and l: "length frs = (max 1 (length ([]::octets)) + 27 - 1) div 27"
    and c: "concat (map (\<lambda>f. acl_payload (snd f)) frs) = []"
    and fl: "map (\<lambda>f. packet_boundary_flag (snd f)) frs =
             FIRST_AUTOMATICALLY_FLUSHABLE # replicate (length frs - 1) CONTINUING_FRAGMENT"
    and k: "map fst frs = replicate (length frs) CLASSIC"
    and h: "map (\<lambda>f. acl_handle (snd f)) frs = replicate (length frs) 64"
    by auto
  from l have "length frs = 1" by simp
  then obtain f0 where frs: "frs = [f0]" by (cases frs) auto
  from f frs have "fragments_to_send s' = [f0]" by (simp add: one_classic_link_def)
  moreover from c fl k h frs have "acl_payload (snd f0) = []"
    "packet_boundary_flag (snd f0) = FIRST_AUTOMATICALLY_FLUSHABLE" "fst f0 = CLASSIC"
    "acl_handle (snd f0) = 64" by simp_all
  ultimately have "\<exists>s' f. BufferPacket 64 (Some []) one_classic_link = Inr s' \<and>
      fragments_to_send s' = [f] \<and> acl_payload (snd f) = [] \<and>
      packet_boundary_flag (snd f) = FIRST_AUTOMATICALLY_FLUSHABLE \<and>
      fst f = CLASSIC \<and> acl_handle (snd f) = 64" using b by blast
  moreover have "run [DoRegister CLASSIC 64 0] (RoundRobinScheduler_new 2 27 0 27) =
     Some (Inr one_classic_link)" by code_simp
  moreover have "map (\<lambda>f. (packet_boundary_flag f, length (acl_payload f)))
     (map snd (packet_fragments CLASSIC 64 27 (replicate 60 0))) =
     [(FIRST_AUTOMATICALLY_FLUSHABLE, 27), (CONTINUING_FRAGMENT, 27), (CONTINUING_FRAGMENT, 6)]"
    by code_simp
  ultimately show ?thesis by blast
qed

subsection \<open>Rotation of the cursor\<close>

text \<open>
  C7. In every state that a run reaches from a new scheduler, with at least one
  connection, a pool that is not 0 and an empty FIFO, \<open>StartRoundRobin\<close> returns normally,
  keeps the set of connections, and leaves the cursor one position after the iterator
  the pass started from (\<open>pass_start\<close>); modulo the number of connections this is the
  old position plus one. After the pass, a connection that delivers a payload
  unregisters every dequeue, so that a second payload waits for the next pass.
\<close>

theorem StartRoundRobin_advances_cursor:
  assumes reach: "run es (RoundRobinScheduler_new a b c d) = Some (Inr s)"
    and ne: "acl_queue_handlers s \<noteq> []"
    and cr: "acl_packet_credits s \<noteq> 0 \<or> le_acl_packet_credits s \<noteq> 0"
    and fifo: "fragments_to_send s = []"
  shows "\<exists>s'. StartRoundRobin s = Inr s' \<and>
           map fst (acl_queue_handlers s') = map fst (acl_queue_handlers s) \<and>
           cursor_position s' = Suc (position (acl_queue_handlers s) (pass_start s)) \<and>
           cursor_position s' mod length (acl_queue_handlers s) =
             (cursor_position s + 1) mod length (acl_queue_handlers s) \<and>
           (\<forall>h p s1. BufferPacket h (Some p) s' = Inr s1 \<longrightarrow>
              \<not> any_dequeue_registered (acl_queue_handlers s1))"
proof -
  let ?m = "acl_queue_handlers s"
  from run_inv [OF new_inv reach] have inv: "scheduler_inv s" .
  then have ok: "std_map_ok ?m" by (simp add: scheduler_inv_def)
  from reachable_pass_cursor [OF inv ne cr] have vi: "valid_iterator ?m (starting_point s)" .
  from StartRoundRobin_pass [OF ne ok vi cr fifo] obtain s' where
    run: "StartRoundRobin s = Inr s'"
    and keys: "map fst (acl_queue_handlers s') = map fst ?m"
    and pos: "cursor_position s' = Suc (position ?m (pass_start s))" by blast
  have "cursor_position s' mod length ?m = (cursor_position s + 1) mod length ?m"
  proof (cases "length ?m = 1")
    case True
    then show ?thesis by simp
  next
    case False
    show ?thesis
    proof (cases "starting_point s = End")
      case True
      then have "pass_start s = std_map_begin ?m" by (simp add: pass_start_def)
      with pos position_begin [OF ne] have "cursor_position s' = 1" by simp
      moreover from True have "cursor_position s = length ?m"
        by (simp add: cursor_position_def position_def)
      moreover from ne False have "1 < length ?m" by (cases ?m) auto
      ultimately show ?thesis by (simp add: mod_Suc)
    next
      case nend: False
      with False pos show ?thesis by (simp add: pass_start_def cursor_position_def)
    qed
  qed
  with run keys pos show ?thesis using BufferPacket_handlers(3) by blast
qed

theorem StartRoundRobin_advances_cursor_witness:
  "run [DoRegister CLASSIC 64 0, DoRegister CLASSIC 65 1,
        DoBufferPacket 64 [0], DoHandleEnqueueNextFragment, DoStartRoundRobin,
        DoBufferPacket 65 [1], DoHandleEnqueueNextFragment, DoStartRoundRobin,
        DoSetDisconnect 64]
       (RoundRobinScheduler_new 2 27 0 27) =
     Some (Inr (both_credits_consumed\<lparr>acl_packet_credits := 1\<rparr>)) \<and>
   cursor_position (both_credits_consumed\<lparr>acl_packet_credits := 1\<rparr>) = 2 \<and>
   (\<exists>s'. StartRoundRobin (both_credits_consumed\<lparr>acl_packet_credits := 1\<rparr>) = Inr s' \<and>
     cursor_position s' = 1 \<and> starting_point s' = At 65)"
proof -
  let ?s = "both_credits_consumed\<lparr>acl_packet_credits := 1\<rparr>"
  have 0: "run [DoRegister CLASSIC 64 0, DoRegister CLASSIC 65 1,
        DoBufferPacket 64 [0], DoHandleEnqueueNextFragment, DoStartRoundRobin,
        DoBufferPacket 65 [1], DoHandleEnqueueNextFragment, DoStartRoundRobin,
        DoSetDisconnect 64]
       (RoundRobinScheduler_new 2 27 0 27) = Some (Inr ?s)" by code_simp
  have 1: "acl_queue_handlers ?s \<noteq> []" by (simp add: both_credits_consumed_def)
  have 4: "acl_packet_credits ?s \<noteq> 0 \<or> le_acl_packet_credits ?s \<noteq> 0" by simp
  have 5: "fragments_to_send ?s = []" by (simp add: both_credits_consumed_def)
  have c: "cursor_position ?s = 2" by code_simp
  have p: "position (acl_queue_handlers ?s) (pass_start ?s) = 0" by code_simp
  from StartRoundRobin_advances_cursor [OF 0 1 4 5] obtain s' where
    r: "StartRoundRobin ?s = Inr s'"
    and q: "cursor_position s' = Suc (position (acl_queue_handlers ?s) (pass_start ?s))"
    by blast
  have "StartRoundRobin ?s = Inr (?s\<lparr>acl_queue_handlers :=
      [(64, \<lparr> connection_type = CLASSIC, queue_down_end = 0, dequeue_is_registered = True,
                number_of_sent_packets = 1, is_disconnected = False \<rparr>),
       (65, \<lparr> connection_type = CLASSIC, queue_down_end = 1, dequeue_is_registered = True,
                number_of_sent_packets = 1, is_disconnected = False \<rparr>)], starting_point := At 65\<rparr>)"
    by code_simp
  with r have "starting_point s' = At 65" by auto
  with r q c p 0 show ?thesis by simp
qed

subsection \<open>Registering a handle twice\<close>

text \<open>
  C10. In every state that a run reaches from a new scheduler, \<open>Register\<close> of a handle
  that is already in the map does what a registration pass on the unchanged state does
  when the FIFO is empty, and nothing otherwise. It returns normally, the handles of the
  map are the same, and the record of the handle keeps its kind, queue endpoint,
  outstanding count and disconnected flag, whatever kind and queue endpoint were passed.
\<close>

theorem Register_existing_handle:
  assumes reach: "run es (RoundRobinScheduler_new a b c d) = Some (Inr s)"
    and reg: "map_of (acl_queue_handlers s) h = Some r"
  shows "Register ct h q s = (if fragments_to_send s = [] then StartRoundRobin s else Inr s) \<and>
         (\<exists>s' r'. Register ct h q s = Inr s' \<and>
            map fst (acl_queue_handlers s') = map fst (acl_queue_handlers s) \<and>
            map_of (acl_queue_handlers s') h = Some r' \<and>
            connection_type r' = connection_type r \<and>
            queue_down_end r' = queue_down_end r \<and>
            number_of_sent_packets r' = number_of_sent_packets r \<and>
            is_disconnected r' = is_disconnected r \<and>
            (fragments_to_send s \<noteq> [] \<longrightarrow> s' = s))"
proof -
  from run_inv [OF new_inv reach] have inv: "scheduler_inv s" .
  then have ok: "std_map_ok (acl_queue_handlers s)" by (simp add: scheduler_inv_def)
  from reg have ne: "acl_queue_handlers s \<noteq> []" by auto
  from reg have "h \<in> set (map fst (acl_queue_handlers s))"
    by (auto dest!: map_of_SomeD intro: rev_image_eqI)
  with ok have same: "std_map_insert h v (acl_queue_handlers s) = acl_queue_handlers s" for v
    by (rule std_map_insert_present)
  have eq: "Register ct h q s = (if fragments_to_send s = [] then StartRoundRobin s else Inr s)"
    by (simp add: Register_def Let_def same)
  have ret: "\<exists>s'. Register ct h q s = Inr s'"
  proof (cases "fragments_to_send s = [] \<and>
                (acl_packet_credits s \<noteq> 0 \<or> le_acl_packet_credits s \<noteq> 0)")
    case True
    then have cr: "acl_packet_credits s \<noteq> 0 \<or> le_acl_packet_credits s \<noteq> 0" by blast
    from StartRoundRobin_pass [OF ne ok reachable_pass_cursor [OF inv ne cr] cr] True eq
    show ?thesis by auto
  next
    case False
    then show ?thesis
      by (auto simp: eq StartRoundRobin_def SendNextFragment_def)
  qed
  then obtain s' where s': "Register ct h q s = Inr s'" by blast
  have "map_of (UnregisterAllConnections (acl_queue_handlers s')) h =
            map_of (UnregisterAllConnections (acl_queue_handlers s)) h \<and>
            map fst (acl_queue_handlers s') = map fst (acl_queue_handlers s)"
  proof (cases "fragments_to_send s = []")
    case True
    with s' eq have "StartRoundRobin s = Inr s'" by simp
    then show ?thesis by (simp add: StartRoundRobin_frame(9) StartRoundRobin_keys)
  next
    case False
    with s' eq show ?thesis by simp
  qed
  then have u: "map_of (UnregisterAllConnections (acl_queue_handlers s')) h =
      Some (r\<lparr>dequeue_is_registered := False\<rparr>)"
    and keys: "map fst (acl_queue_handlers s') = map fst (acl_queue_handlers s)"
    using reg by (simp_all add: map_of_UnregisterAll)
  from u obtain r' where r': "map_of (acl_queue_handlers s') h = Some r'"
    and e: "r'\<lparr>dequeue_is_registered := False\<rparr> = r\<lparr>dequeue_is_registered := False\<rparr>"
    by (auto simp: map_of_UnregisterAll)
  from e have "connection_type (r'\<lparr>dequeue_is_registered := False\<rparr>) =
      connection_type (r\<lparr>dequeue_is_registered := False\<rparr>)"
    "queue_down_end (r'\<lparr>dequeue_is_registered := False\<rparr>) =
      queue_down_end (r\<lparr>dequeue_is_registered := False\<rparr>)"
    "number_of_sent_packets (r'\<lparr>dequeue_is_registered := False\<rparr>) =
      number_of_sent_packets (r\<lparr>dequeue_is_registered := False\<rparr>)"
    "is_disconnected (r'\<lparr>dequeue_is_registered := False\<rparr>) =
      is_disconnected (r\<lparr>dequeue_is_registered := False\<rparr>)"
    by simp_all
  then have f: "connection_type r' = connection_type r" "queue_down_end r' = queue_down_end r"
    "number_of_sent_packets r' = number_of_sent_packets r"
    "is_disconnected r' = is_disconnected r" by simp_all
  have "fragments_to_send s \<noteq> [] \<longrightarrow> s' = s" using s' eq by auto
  with s' keys r' f eq show ?thesis by blast
qed

theorem Register_existing_handle_witness:
  "run [DoRegister CLASSIC 64 0, DoBufferPacket 64 [0], DoHandleEnqueueNextFragment,
        DoStartRoundRobin] (RoundRobinScheduler_new 2 27 0 27) = Some (Inr one_fragment_sent) \<and>
   Register LE 64 7 one_fragment_sent = Inr one_fragment_sent"
proof -
  have r: "run [DoRegister CLASSIC 64 0, DoBufferPacket 64 [0], DoHandleEnqueueNextFragment,
        DoStartRoundRobin] (RoundRobinScheduler_new 2 27 0 27) = Some (Inr one_fragment_sent)"
    by code_simp
  have m: "map_of (acl_queue_handlers one_fragment_sent) 64 =
      Some \<lparr> connection_type = CLASSIC, queue_down_end = 0, dequeue_is_registered = True,
                number_of_sent_packets = 1, is_disconnected = False \<rparr>"
    by (simp add: one_fragment_sent_def)
  have "StartRoundRobin one_fragment_sent = Inr one_fragment_sent" by code_simp
  moreover have "fragments_to_send one_fragment_sent = []" by (simp add: one_fragment_sent_def)
  ultimately have "Register LE 64 7 one_fragment_sent = Inr one_fragment_sent"
    using Register_existing_handle [OF r m, of LE 7] by simp
  with r show ?thesis by blast
qed

section \<open>Properties of the module registry\<close>

subsection \<open>Starting modules\<close>

lemma map_of_started: "(map_of (started_modules r) m = None) = (\<not> is_started r m)"
  by (simp add: is_started_def map_of_eq_None_iff)

lemma Start_started: "is_started r m \<Longrightarrow> Start f deps th m r = Some r"
  using map_of_started [of r m] by (cases f) (auto split: option.splits)

lemma Start_0_unstarted: "\<not> is_started r m \<Longrightarrow> Start 0 deps th m r = None"
  using map_of_started [of r m] by simp

lemma Start_Suc_unstarted:
  "\<not> is_started r m \<Longrightarrow>
   Start (Suc f) deps th m r =
     (case start_all (Start f deps th) (deps m) r of
        None \<Rightarrow> None | Some r' \<Rightarrow> Some (enter_module deps th m r'))"
  using map_of_started [of r m] by simp

declare Start.simps [simp del]

lemma is_started_enter:
  "is_started (enter_module deps th m r) x = (x = m \<or> is_started r x)"
  by (auto simp: is_started_def enter_module_def assign_module_def)

lemma start_all_inv:
  assumes step: "\<And>m r r'. g m r = Some r' \<Longrightarrow> P r \<Longrightarrow> P r'"
  shows "start_all g ms r = Some r' \<Longrightarrow> P r \<Longrightarrow> P r'"
proof (induction ms arbitrary: r)
  case Nil
  then show ?case by simp
next
  case (Cons m ms)
  from Cons.prems(1) obtain r1 where g: "g m r = Some r1" and rest: "start_all g ms r1 = Some r'"
    by (cases "g m r") auto
  from step [OF g Cons.prems(2)] rest show ?case by (intro Cons.IH)
qed

lemma start_all_grow:
  assumes step: "\<And>m r r'. g m r = Some r' \<Longrightarrow>
      (\<forall>x. is_started r x \<longrightarrow> is_started r' x) \<and> is_started r' m"
  shows "start_all g ms r = Some r' \<Longrightarrow>
      (\<forall>x. is_started r x \<longrightarrow> is_started r' x) \<and> (\<forall>m \<in> set ms. is_started r' m)"
proof (induction ms arbitrary: r)
  case Nil
  then show ?case by simp
next
  case (Cons m ms)
  from Cons.prems(1) obtain r1 where g: "g m r = Some r1" and rest: "start_all g ms r1 = Some r'"
    by (cases "g m r") auto
  from step [OF g] Cons.IH [OF rest] show ?case by auto
qed

lemma Start_grow:
  "Start f deps th m r = Some r' \<Longrightarrow>
   (\<forall>x. is_started r x \<longrightarrow> is_started r' x) \<and> is_started r' m"
proof (induction f arbitrary: m r r')
  case 0
  then show ?case
    by (cases "is_started r m") (simp_all add: Start_started Start_0_unstarted)
next
  case (Suc f)
  show ?case
  proof (cases "is_started r m")
    case True
    with Suc.prems show ?thesis by (simp add: Start_started)
  next
    case False
    with Suc.prems obtain mid where
      mid: "start_all (Start f deps th) (deps m) r = Some mid"
      and r': "r' = enter_module deps th m mid"
      by (cases "start_all (Start f deps th) (deps m) r") (auto simp: Start_Suc_unstarted)
    from start_all_grow [of "Start f deps th", OF Suc.IH mid]
    show ?thesis by (simp add: r' is_started_enter)
  qed
qed

lemma start_all_Start_grow:
  "start_all (Start f deps th) ms r = Some r' \<Longrightarrow>
   (\<forall>x. is_started r x \<longrightarrow> is_started r' x) \<and> (\<forall>m \<in> set ms. is_started r' m)"
  by (rule start_all_grow [of "Start f deps th", OF Start_grow])

lemma start_all_more_fuel:
  assumes step: "\<And>m r r'. g m r = Some r' \<Longrightarrow> g' m r = Some r'"
  shows "start_all g ms r = Some r' \<Longrightarrow> start_all g' ms r = Some r'"
proof (induction ms arbitrary: r)
  case Nil
  then show ?case by simp
next
  case (Cons m ms)
  from Cons.prems(1) obtain r1 where g: "g m r = Some r1" and rest: "start_all g ms r1 = Some r'"
    by (cases "g m r") auto
  from step [OF g] Cons.IH [OF rest] show ?case by simp
qed

lemma Start_Suc_fuel:
  "Start f deps th m r = Some r' \<Longrightarrow> Start (Suc f) deps th m r = Some r'"
proof (induction f arbitrary: m r r')
  case 0
  then show ?case
    by (cases "is_started r m") (simp_all add: Start_started Start_0_unstarted)
next
  case (Suc f)
  show ?case
  proof (cases "is_started r m")
    case True
    with Suc.prems show ?thesis by (simp add: Start_started)
  next
    case False
    with Suc.prems obtain mid where
      mid: "start_all (Start f deps th) (deps m) r = Some mid"
      and r': "r' = enter_module deps th m mid"
      by (cases "start_all (Start f deps th) (deps m) r") (auto simp: Start_Suc_unstarted)
    from start_all_more_fuel [of "Start f deps th" "Start (Suc f) deps th", OF Suc.IH mid]
    have "start_all (Start (Suc f) deps th) (deps m) r = Some mid" .
    with False r' show ?thesis by (simp add: Start_Suc_unstarted [of r m "Suc f"])
  qed
qed

lemma Start_more_fuel:
  "f \<le> f' \<Longrightarrow> Start f deps th m r = Some r' \<Longrightarrow> Start f' deps th m r = Some r'"
  by (induction rule: dec_induct) (auto intro: Start_Suc_fuel)

lemma start_all_Start_more_fuel:
  "f \<le> f' \<Longrightarrow> start_all (Start f deps th) ms r = Some r' \<Longrightarrow>
   start_all (Start f' deps th) ms r = Some r'"
  by (rule start_all_more_fuel [of "Start f deps th"]) (auto intro: Start_more_fuel)

lemma start_all_started:
  "\<forall>m \<in> set ms. is_started r m \<Longrightarrow> start_all (Start f deps th) ms r = Some r"
  by (induction ms) (simp_all add: Start_started)

lemma deps_started_enter:
  "deps_started deps r \<Longrightarrow> \<forall>d \<in> set (deps m). is_started r d \<Longrightarrow>
   deps_started deps (enter_module deps th m r)"
  by (auto simp: deps_started_def is_started_enter)

lemma Start_deps_started:
  "Start f deps th m r = Some r' \<Longrightarrow> deps_started deps r \<Longrightarrow> deps_started deps r'"
proof (induction f arbitrary: m r r')
  case 0
  then show ?case
    by (cases "is_started r m") (simp_all add: Start_started Start_0_unstarted)
next
  case (Suc f)
  show ?case
  proof (cases "is_started r m")
    case True
    with Suc.prems show ?thesis by (simp add: Start_started)
  next
    case False
    with Suc.prems obtain mid where
      mid: "start_all (Start f deps th) (deps m) r = Some mid"
      and r': "r' = enter_module deps th m mid"
      by (cases "start_all (Start f deps th) (deps m) r") (auto simp: Start_Suc_unstarted)
    from start_all_inv [of "Start f deps th" "deps_started deps", OF Suc.IH mid Suc.prems(2)]
    have "deps_started deps mid" .
    moreover from start_all_Start_grow [OF mid] have "\<forall>d \<in> set (deps m). is_started mid d"
      by blast
    ultimately show ?thesis unfolding r' by (rule deps_started_enter)
  qed
qed

lemma start_all_deps_started:
  "start_all (Start f deps th) ms r = Some r' \<Longrightarrow> deps_started deps r \<Longrightarrow> deps_started deps r'"
  by (rule start_all_inv [of "Start f deps th" "deps_started deps", OF Start_deps_started])

subsection \<open>A module is not started by its own dependencies\<close>

text \<open>Starting from a registry in which more is started starts no less.\<close>

lemma start_all_mono:
  assumes step: "\<forall>m r1 r2 r1'. deps_started deps r1 \<and> deps_started deps r2 \<and>
      (\<forall>x. is_started r1 x \<longrightarrow> is_started r2 x) \<and> Start f deps th m r1 = Some r1' \<longrightarrow>
      (\<exists>r2'. Start f deps th m r2 = Some r2' \<and> (\<forall>x. is_started r1' x \<longrightarrow> is_started r2' x))"
  shows "deps_started deps r1 \<Longrightarrow> deps_started deps r2 \<Longrightarrow>
      (\<forall>x. is_started r1 x \<longrightarrow> is_started r2 x) \<Longrightarrow>
      start_all (Start f deps th) ms r1 = Some r1' \<Longrightarrow>
      \<exists>r2'. start_all (Start f deps th) ms r2 = Some r2' \<and>
        (\<forall>x. is_started r1' x \<longrightarrow> is_started r2' x)"
proof (induction ms arbitrary: r1 r2)
  case Nil
  then show ?case by simp
next
  case (Cons m ms)
  from Cons.prems(4) obtain a where a: "Start f deps th m r1 = Some a"
    and rest: "start_all (Start f deps th) ms a = Some r1'"
    by (cases "Start f deps th m r1") auto
  from step Cons.prems(1,2,3) a obtain b where b: "Start f deps th m r2 = Some b"
    and sub: "\<forall>x. is_started a x \<longrightarrow> is_started b x" by blast
  from Start_deps_started [OF a Cons.prems(1)] have da: "deps_started deps a" .
  from Start_deps_started [OF b Cons.prems(2)] have db: "deps_started deps b" .
  from Cons.IH [OF da db sub rest] b show ?case by simp
qed

lemma Start_mono:
  "deps_started deps r1 \<Longrightarrow> deps_started deps r2 \<Longrightarrow>
   (\<forall>x. is_started r1 x \<longrightarrow> is_started r2 x) \<Longrightarrow> Start f deps th m r1 = Some r1' \<Longrightarrow>
   \<exists>r2'. Start f deps th m r2 = Some r2' \<and> (\<forall>x. is_started r1' x \<longrightarrow> is_started r2' x)"
proof (induction f arbitrary: m r1 r2 r1')
  case 0
  from 0(4) have "is_started r1 m" "r1' = r1"
    by (cases "is_started r1 m"; simp add: Start_started Start_0_unstarted)+
  with 0(3) show ?case by (auto simp: Start_started)
next
  case (Suc f)
  show ?case
  proof (cases "is_started r1 m")
    case True
    with Suc.prems(4) have "r1' = r1" by (simp add: Start_started)
    with True Suc.prems(3) show ?thesis by (auto simp: Start_started)
  next
    case False
    with Suc.prems(4) obtain mid1 where
      mid1: "start_all (Start f deps th) (deps m) r1 = Some mid1"
      and r1': "r1' = enter_module deps th m mid1"
      by (cases "start_all (Start f deps th) (deps m) r1") (auto simp: Start_Suc_unstarted)
    have step: "\<forall>m r1 r2 r1'. deps_started deps r1 \<and> deps_started deps r2 \<and>
      (\<forall>x. is_started r1 x \<longrightarrow> is_started r2 x) \<and> Start f deps th m r1 = Some r1' \<longrightarrow>
      (\<exists>r2'. Start f deps th m r2 = Some r2' \<and> (\<forall>x. is_started r1' x \<longrightarrow> is_started r2' x))"
      using Suc.IH by blast
    from start_all_mono [OF step Suc.prems(1,2,3) mid1]
    obtain mid2 where mid2: "start_all (Start f deps th) (deps m) r2 = Some mid2"
      and sub: "\<forall>x. is_started mid1 x \<longrightarrow> is_started mid2 x"
      by blast
    show ?thesis
    proof (cases "is_started r2 m")
      case True
      with Suc.prems(2) have "\<forall>d \<in> set (deps m). is_started r2 d"
        by (auto simp: deps_started_def)
      from start_all_started [OF this] mid2 have "mid2 = r2" by simp
      with sub True have "\<forall>x. is_started r1' x \<longrightarrow> is_started r2 x"
        by (auto simp: r1' is_started_enter)
      with True show ?thesis by (auto simp: Start_started)
    next
      case unstarted: False
      with mid2 have "Start (Suc f) deps th m r2 = Some (enter_module deps th m mid2)"
        by (simp add: Start_Suc_unstarted)
      with sub show ?thesis by (auto simp: r1' is_started_enter)
    qed
  qed
qed

lemma start_all_Start_mono:
  "deps_started deps r1 \<Longrightarrow> deps_started deps r2 \<Longrightarrow>
   (\<forall>x. is_started r1 x \<longrightarrow> is_started r2 x) \<Longrightarrow>
   start_all (Start f deps th) ms r1 = Some r1' \<Longrightarrow>
   \<exists>r2'. start_all (Start f deps th) ms r2 = Some r2' \<and>
     (\<forall>x. is_started r1' x \<longrightarrow> is_started r2' x)"
proof -
  have "\<forall>m r1 r2 r1'. deps_started deps r1 \<and> deps_started deps r2 \<and>
      (\<forall>x. is_started r1 x \<longrightarrow> is_started r2 x) \<and> Start f deps th m r1 = Some r1' \<longrightarrow>
      (\<exists>r2'. Start f deps th m r2 = Some r2' \<and> (\<forall>x. is_started r1' x \<longrightarrow> is_started r2' x))"
    using Start_mono by blast
  then show "deps_started deps r1 \<Longrightarrow> deps_started deps r2 \<Longrightarrow>
   (\<forall>x. is_started r1 x \<longrightarrow> is_started r2 x) \<Longrightarrow>
   start_all (Start f deps th) ms r1 = Some r1' \<Longrightarrow>
   \<exists>r2'. start_all (Start f deps th) ms r2 = Some r2' \<and>
     (\<forall>x. is_started r1' x \<longrightarrow> is_started r2' x)"
    by (rule start_all_mono)
qed

lemma started_by_call_later:
  "started_by_call deps th f r1 x \<Longrightarrow> (\<forall>y. is_started r y \<longrightarrow> is_started r1 y) \<Longrightarrow>
   f \<le> f' \<Longrightarrow> started_by_call deps th f' r x"
  unfolding started_by_call_def by (meson le_trans)

lemma start_all_sub:
  assumes step: "\<forall>m r r'. Start f deps th m r = Some r' \<and> deps_started deps r \<and>
      is_started r' x \<and> \<not> is_started r x \<longrightarrow> started_by_call deps th f r x"
  shows "start_all (Start f deps th) ms r = Some r' \<Longrightarrow> deps_started deps r \<Longrightarrow>
      is_started r' x \<Longrightarrow> \<not> is_started r x \<Longrightarrow> started_by_call deps th f r x"
proof (induction ms arbitrary: r)
  case Nil
  then show ?case by simp
next
  case (Cons m ms)
  from Cons.prems(1) obtain a where a: "Start f deps th m r = Some a"
    and rest: "start_all (Start f deps th) ms a = Some r'"
    by (cases "Start f deps th m r") auto
  show ?case
  proof (cases "is_started a x")
    case True
    from step a Cons.prems(2) True Cons.prems(4) show ?thesis by blast
  next
    case False
    from Start_deps_started [OF a Cons.prems(2)] have "deps_started deps a" .
    from Cons.IH [OF rest this Cons.prems(3) False]
    have "started_by_call deps th f a x" .
    moreover from Start_grow [OF a] have "\<forall>y. is_started r y \<longrightarrow> is_started a y" by blast
    ultimately show ?thesis by (rule started_by_call_later) simp
  qed
qed

lemma Start_sub:
  "Start f deps th m r = Some r' \<Longrightarrow> deps_started deps r \<Longrightarrow>
   is_started r' x \<Longrightarrow> \<not> is_started r x \<Longrightarrow> started_by_call deps th f r x"
proof (induction f arbitrary: m r r')
  case 0
  from 0(1) have "r' = r"
    by (cases "is_started r m") (simp_all add: Start_started Start_0_unstarted)
  with 0 show ?case by simp
next
  case (Suc f)
  show ?case
  proof (cases "is_started r m")
    case True
    with Suc.prems(1) have "r' = r" by (simp add: Start_started)
    with Suc.prems show ?thesis by simp
  next
    case False
    with Suc.prems(1) obtain mid where
      mid: "start_all (Start f deps th) (deps m) r = Some mid"
      and r': "r' = enter_module deps th m mid"
      by (cases "start_all (Start f deps th) (deps m) r") (auto simp: Start_Suc_unstarted)
    show ?thesis
    proof (cases "is_started mid x")
      case True
      have step: "\<forall>m r r'. Start f deps th m r = Some r' \<and> deps_started deps r \<and>
          is_started r' x \<and> \<not> is_started r x \<longrightarrow> started_by_call deps th f r x"
        using Suc.IH by blast
      from start_all_sub [OF step mid Suc.prems(2) True Suc.prems(4)]
      have "started_by_call deps th f r x" .
      then show ?thesis by (rule started_by_call_later) simp_all
    next
      case nm: False
      with Suc.prems(3) have "x = m" by (simp add: r' is_started_enter)
      with mid Suc.prems(2,4) show ?thesis
        unfolding started_by_call_def by (intro exI [of _ f] exI [of _ r] exI [of _ mid]) simp
    qed
  qed
qed

lemma start_all_Start_sub:
  "start_all (Start f deps th) ms r = Some r' \<Longrightarrow> deps_started deps r \<Longrightarrow>
   is_started r' x \<Longrightarrow> \<not> is_started r x \<Longrightarrow> started_by_call deps th f r x"
proof -
  have "\<forall>m r r'. Start f deps th m r = Some r' \<and> deps_started deps r \<and>
      is_started r' x \<and> \<not> is_started r x \<longrightarrow> started_by_call deps th f r x"
    using Start_sub by blast
  then show "start_all (Start f deps th) ms r = Some r' \<Longrightarrow> deps_started deps r \<Longrightarrow>
   is_started r' x \<Longrightarrow> \<not> is_started r x \<Longrightarrow> started_by_call deps th f r x"
    by (rule start_all_sub)
qed

lemma not_started_by_own_dependencies:
  "deps_started deps r \<Longrightarrow> \<not> is_started r m \<Longrightarrow>
   start_all (Start f deps th) (deps m) r = Some mid \<Longrightarrow> \<not> is_started mid m"
proof (induction f arbitrary: r mid rule: less_induct)
  case (less f)
  show ?case
  proof
    assume started: "is_started mid m"
    from start_all_Start_sub [OF less.prems(3,1) started less.prems(2)]
    obtain g r0 mid0 where g: "Suc g \<le> f" and d0: "deps_started deps r0"
      and sub: "\<forall>y. is_started r y \<longrightarrow> is_started r0 y" and n0: "\<not> is_started r0 m"
      and run0: "start_all (Start g deps th) (deps m) r0 = Some mid0"
      unfolding started_by_call_def by blast
    from start_all_Start_mono [OF less.prems(1) d0 sub less.prems(3)]
    obtain mid' where run': "start_all (Start f deps th) (deps m) r0 = Some mid'"
      and sub': "\<forall>x. is_started mid x \<longrightarrow> is_started mid' x" by blast
    from g have "g \<le> f" by simp
    from start_all_Start_more_fuel [OF this run0] run' have "mid' = mid0" by simp
    with sub' started have "is_started mid0 m" by simp
    moreover from g have "g < f" by simp
    from less.IH [OF this d0 n0 run0] have "\<not> is_started mid0 m" .
    ultimately show False by simp
  qed
qed

subsection \<open>The invariant of the registry\<close>

lemma registry_inv_new: "registry_inv deps new_registry"
  by (simp add: registry_inv_def new_registry_def deps_started_def is_started_def)

lemma registry_inv_enter:
  assumes inv: "registry_inv deps r" and n: "\<not> is_started r m"
    and d: "\<forall>d \<in> set (deps m). is_started r d"
  shows "registry_inv deps (enter_module deps th m r)"
proof -
  from inv have keys: "map fst (started_modules r) = rev (start_order r)"
    and dist: "distinct (start_order r)" and c: "calls r = map CallStart (start_order r)"
    and ds: "deps_started deps r"
    by (simp_all add: registry_inv_def)
  from n keys have nm: "m \<notin> set (start_order r)" by (simp add: is_started_def)
  from n have "filter (\<lambda>kv. fst kv \<noteq> m) (started_modules r) = started_modules r"
    by (auto simp: is_started_def filter_id_conv)
  with keys have "map fst (started_modules (enter_module deps th m r)) =
      rev (start_order (enter_module deps th m r))"
    by (simp add: enter_module_def assign_module_def)
  moreover from dist nm have "distinct (start_order (enter_module deps th m r))"
    by (simp add: enter_module_def)
  moreover from c have "calls (enter_module deps th m r) =
      map CallStart (start_order (enter_module deps th m r))"
    by (simp add: enter_module_def)
  moreover from ds d have "deps_started deps (enter_module deps th m r)"
    by (rule deps_started_enter)
  ultimately show ?thesis by (simp add: registry_inv_def)
qed

lemma Start_registry_inv:
  "Start f deps th m r = Some r' \<Longrightarrow> registry_inv deps r \<Longrightarrow> registry_inv deps r'"
proof (induction f arbitrary: m r r')
  case 0
  then show ?case
    by (cases "is_started r m") (simp_all add: Start_started Start_0_unstarted)
next
  case (Suc f)
  show ?case
  proof (cases "is_started r m")
    case True
    with Suc.prems show ?thesis by (simp add: Start_started)
  next
    case False
    with Suc.prems(1) obtain mid where
      mid: "start_all (Start f deps th) (deps m) r = Some mid"
      and r': "r' = enter_module deps th m mid"
      by (cases "start_all (Start f deps th) (deps m) r") (auto simp: Start_Suc_unstarted)
    from start_all_inv [of "Start f deps th" "registry_inv deps", OF Suc.IH mid Suc.prems(2)]
    have inv: "registry_inv deps mid" .
    from Suc.prems(2) have "deps_started deps r" by (simp add: registry_inv_def)
    from not_started_by_own_dependencies [OF this False mid] have n: "\<not> is_started mid m" .
    from start_all_Start_grow [OF mid] have "\<forall>d \<in> set (deps m). is_started mid d" by blast
    with inv n show ?thesis unfolding r' by (rule registry_inv_enter)
  qed
qed

lemma start_calls_registry_inv:
  "start_calls f deps cs r = Some r' \<Longrightarrow> registry_inv deps r \<Longrightarrow> registry_inv deps r'"
proof (induction cs arbitrary: r)
  case Nil
  then show ?case by simp
next
  case (Cons c cs)
  from Cons.prems(1) obtain a where
    a: "start_all (Start f deps (fst c)) (snd c) r = Some a"
    and rest: "start_calls f deps cs a = Some r'"
    by (cases "start_all (Start f deps (fst c)) (snd c) r") (auto simp: Start_modules_def)
  from start_all_inv [of "Start f deps (fst c)" "registry_inv deps",
      OF Start_registry_inv a Cons.prems(2)]
  have "registry_inv deps a" .
  with rest show ?case by (rule Cons.IH)
qed

subsection \<open>Stopping\<close>

lemma stop_loop_all:
  "distinct ms \<Longrightarrow> map fst (started_modules r) = ms \<Longrightarrow>
   stop_loop ms r = Inr (r\<lparr>calls := calls r @ map CallStop ms, started_modules := []\<rparr>)"
proof (induction ms arbitrary: r)
  case Nil
  then show ?case by simp
next
  case (Cons m ms)
  from Cons.prems(2) obtain v rest where sm: "started_modules r = (m, v) # rest"
    and keys: "map fst rest = ms" by (cases "started_modules r") auto
  from Cons.prems(1) keys have "m \<notin> set (map fst rest)" by simp
  then have er: "erase_module m (started_modules r) = rest"
    by (auto simp: sm erase_module_def filter_id_conv)
  let ?r1 = "r\<lparr>calls := calls r @ [CallStop m], started_modules := rest\<rparr>"
  from Cons.prems(1) have "distinct ms" by simp
  moreover from keys have "map fst (started_modules ?r1) = ms" by simp
  ultimately have "stop_loop ms ?r1 =
      Inr (?r1\<lparr>calls := calls ?r1 @ map CallStop ms, started_modules := []\<rparr>)"
    by (rule Cons.IH)
  with sm er show ?case by simp
qed

lemma StopAll_registry_inv:
  assumes "registry_inv deps r"
  shows "StopAll r =
     Inr (r\<lparr>calls := calls r @ map CallStop (rev (start_order r)),
            started_modules := [], start_order := []\<rparr>)"
proof -
  from assms have "distinct (rev (start_order r))"
    "map fst (started_modules r) = rev (start_order r)"
    by (simp_all add: registry_inv_def)
  from stop_loop_all [OF this] show ?thesis by (simp add: StopAll_def)
qed

lemma started_in_stops [simp]:
  "started_in (map CallStop ys) = []" "stopped_in (map CallStop ys) = ys"
  by (induction ys) simp_all

lemma started_in_calls [simp]:
  "started_in (map CallStart xs @ map CallStop ys) = xs"
  "stopped_in (map CallStart xs @ map CallStop ys) = ys"
  by (induction xs) simp_all

subsection \<open>Stop order\<close>

text \<open>
  C8. After every sequence of \<open>Start\<close> calls on a new registry that return, \<open>StopAll\<close>
  returns normally; the start steps that ran are those of the modules in the map, in
  start order; \<open>StopAll\<close> calls the stop step of each of them once, in exactly the
  reverse of the order in which the start steps ran; and afterwards the map and the
  recorded start order are empty.
\<close>

theorem StopAll_reverse_start_order:
  assumes "start_calls depth deps cs new_registry = Some reg"
  shows "\<exists>reg'. StopAll reg = Inr reg' \<and>
           started_in (calls reg) = start_order reg \<and> stopped_in (calls reg) = [] \<and>
           set (start_order reg) = set (map fst (started_modules reg)) \<and>
           calls reg' = calls reg @ map CallStop (rev (started_in (calls reg))) \<and>
           stopped_in (calls reg') = rev (started_in (calls reg)) \<and>
           started_modules reg' = [] \<and> start_order reg' = []"
proof -
  from start_calls_registry_inv [OF assms registry_inv_new] have inv: "registry_inv deps reg" .
  then have c: "calls reg = map CallStart (start_order reg)"
    and k: "map fst (started_modules reg) = rev (start_order reg)"
    by (simp_all add: registry_inv_def)
  from started_in_calls [of "start_order reg" "[]"] c
  have s: "started_in (calls reg) = start_order reg" "stopped_in (calls reg) = []" by simp_all
  from k have "set (start_order reg) = set (map fst (started_modules reg))" by simp
  with StopAll_registry_inv [OF inv] s c show ?thesis by simp
qed

theorem StopAll_reverse_start_order_witness:
  "start_calls 5 (\<lambda>m. if m = 3 then [1, 2] else if m = 2 then [1] else [])
     [(0, [3]), (0, [4, 2])] new_registry =
     Some \<lparr> started_modules =
              [(4, \<lparr>handler = 0, dependencies = []\<rparr>),
               (3, \<lparr>handler = 0, dependencies = [1, 2]\<rparr>),
               (2, \<lparr>handler = 0, dependencies = [1]\<rparr>),
               (1, \<lparr>handler = 0, dependencies = []\<rparr>)],
            start_order = [1, 2, 3, 4],
            calls = [CallStart 1, CallStart 2, CallStart 3, CallStart 4] \<rparr> \<and>
   (\<exists>reg'. StopAll \<lparr> started_modules =
              [(4, \<lparr>handler = 0, dependencies = []\<rparr>),
               (3, \<lparr>handler = 0, dependencies = [1, 2]\<rparr>),
               (2, \<lparr>handler = 0, dependencies = [1]\<rparr>),
               (1, \<lparr>handler = 0, dependencies = []\<rparr>)],
            start_order = [1, 2, 3, 4],
            calls = [CallStart 1, CallStart 2, CallStart 3, CallStart 4] \<rparr> = Inr reg' \<and>
      stopped_in (calls reg') = [4, 3, 2, 1] \<and> started_modules reg' = [] \<and>
      start_order reg' = [])"
proof -
  let ?reg = "\<lparr> started_modules =
              [(4, \<lparr>handler = 0, dependencies = []\<rparr>),
               (3, \<lparr>handler = 0, dependencies = [1, 2]\<rparr>),
               (2, \<lparr>handler = 0, dependencies = [1]\<rparr>),
               (1, \<lparr>handler = 0, dependencies = []\<rparr>)],
            start_order = [1, 2, 3, 4],
            calls = [CallStart 1, CallStart 2, CallStart 3, CallStart 4] \<rparr>"
  have r: "start_calls 5 (\<lambda>m. if m = 3 then [1, 2] else if m = 2 then [1] else [])
     [(0, [3]), (0, [4, 2])] new_registry = Some ?reg"
    by code_simp
  from StopAll_reverse_start_order [OF r] obtain reg' where
    a: "StopAll ?reg = Inr reg'"
    and b: "stopped_in (calls reg') = rev (started_in (calls ?reg))"
    and c: "started_modules reg' = []" and d: "start_order reg' = []" by blast
  from b have "stopped_in (calls reg') = [4, 3, 2, 1]" by simp
  with a c d r show ?thesis by blast
qed

end
